theory Spec2Isabelle
  imports Complex_Main "HOL-Library.AList"
begin

section \<open>Admission and scheduling controller (app/infra/jobs\_queue.py)\<close>

subsection \<open>Data model\<close>

text \<open>
  \<open>GenerateJob\<close> (app/domain/models.py) restricted to the fields the controller reads or
  writes. Jobs are Python objects shared by reference between the caller, the registry,
  the topic queue and the worker that holds them; the model keeps them in a store
  indexed by object reference, so that a flag written through one alias is seen through
  every other.
\<close>

record generate_job =
  chat_id :: int
  thread_id :: int
  message_id :: int
  user_id :: int
  topic_alias :: string
  canceled :: bool
  canceled_by_admin :: bool
  started :: bool

type_synonym job_ref = nat

text \<open>
  One worker task of \<open>_worker_loop\<close>, at one of its suspension points: waiting in
  \<open>q.get()\<close>, waiting for the global semaphore with a dequeued job in hand, awaiting the
  processor, or returned.
\<close>

datatype worker = WIdle | WAcquiring job_ref | WRunning job_ref | WExited

datatype error = RuntimeError | KeyError | TypeError | AttributeError | ValueError

record jobs_queue =
  queues :: "string \<rightharpoonup> job_ref option list"
  workers :: "string \<rightharpoonup> worker list"
  global_sema :: int
  per_topic_limit :: int
  processor_set :: bool
  closed :: bool
  active_per_topic :: "string \<rightharpoonup> int"
  active_global :: int
  max_workers :: int
  registry :: "int \<rightharpoonup> job_ref"
  pending_by_user :: "int \<rightharpoonup> int"
  jobs :: "job_ref \<Rightarrow> generate_job"

text \<open>
  \<open>JobsQueue.__init__\<close>. \<open>asyncio.Semaphore\<close> raises \<open>ValueError\<close> for a negative initial
  value. The store of job objects is whatever the caller has allocated.
\<close>

definition init :: "(job_ref \<Rightarrow> generate_job) \<Rightarrow> int \<Rightarrow> int \<Rightarrow> error + jobs_queue" where
  "init objs mw ptl =
     (if mw < 0 then Inl ValueError
      else Inr \<lparr> queues = Map.empty, workers = Map.empty, global_sema = mw,
                 per_topic_limit = max 1 ptl, processor_set = False, closed = False,
                 active_per_topic = Map.empty, active_global = 0, max_workers = mw,
                 registry = Map.empty, pending_by_user = Map.empty, jobs = objs \<rparr>)"

definition set_processor :: "jobs_queue \<Rightarrow> jobs_queue" where
  "set_processor s = s\<lparr>processor_set := True\<rparr>"

subsection \<open>Pending counters\<close>

definition pending_count_by_user :: "jobs_queue \<Rightarrow> int \<Rightarrow> int" where
  "pending_count_by_user s uid = (case pending_by_user s uid of None \<Rightarrow> 0 | Some c \<Rightarrow> c)"

definition inc_pending :: "jobs_queue \<Rightarrow> int \<Rightarrow> jobs_queue" where
  "inc_pending s uid =
     (if uid \<le> 0 then s
      else s\<lparr>pending_by_user := (pending_by_user s)(uid \<mapsto> pending_count_by_user s uid + 1)\<rparr>)"

definition dec_pending :: "jobs_queue \<Rightarrow> int \<Rightarrow> jobs_queue" where
  "dec_pending s uid =
     (if uid \<le> 0 then s
      else let cur = pending_count_by_user s uid in
        if cur \<le> 1 then s\<lparr>pending_by_user := (pending_by_user s)(uid := None)\<rparr>
        else s\<lparr>pending_by_user := (pending_by_user s)(uid \<mapsto> cur - 1)\<rparr>)"

subsection \<open>Worker pools and queues\<close>

text \<open>
  \<open>_ensure_workers\<close>: nothing to do when the alias has a non-empty pool; otherwise the
  queue is created if missing and \<open>range(self._per_topic_limit)\<close> worker tasks are spawned.
\<close>

definition ensure_workers :: "jobs_queue \<Rightarrow> string \<Rightarrow> jobs_queue" where
  "ensure_workers s alias =
     (case workers s alias of
        Some (w # ws) \<Rightarrow> s
      | _ \<Rightarrow> s\<lparr> queues := (case queues s alias of
                                None \<Rightarrow> (queues s)(alias \<mapsto> [])
                              | Some q \<Rightarrow> queues s),
                 workers := (workers s)(alias \<mapsto> replicate (nat (per_topic_limit s)) WIdle) \<rparr>)"

text \<open>\<open>self._queues[alias].put(job)\<close> on an unbounded queue; the subscript raises on a missing alias.\<close>

definition queue_put :: "jobs_queue \<Rightarrow> string \<Rightarrow> job_ref option \<Rightarrow> error + jobs_queue" where
  "queue_put s alias item =
     (case queues s alias of
        None \<Rightarrow> Inl KeyError
      | Some q \<Rightarrow> Inr (s\<lparr>queues := (queues s)(alias \<mapsto> q @ [item])\<rparr>))"

definition register_job :: "jobs_queue \<Rightarrow> job_ref \<Rightarrow> jobs_queue" where
  "register_job s r = s\<lparr>registry := (registry s)(message_id (jobs s r) \<mapsto> r)\<rparr>"

text \<open>\<open>if job.user_id: self._inc_pending(job.user_id)\<close>: Python truth of an int is \<open>\<noteq> 0\<close>.\<close>

definition inc_pending_job :: "jobs_queue \<Rightarrow> job_ref \<Rightarrow> jobs_queue" where
  "inc_pending_job s r = (if user_id (jobs s r) \<noteq> 0 then inc_pending s (user_id (jobs s r)) else s)"

definition dec_pending_job :: "jobs_queue \<Rightarrow> job_ref \<Rightarrow> jobs_queue" where
  "dec_pending_job s r = (if user_id (jobs s r) \<noteq> 0 then dec_pending s (user_id (jobs s r)) else s)"

subsection \<open>Admission operations\<close>

definition enqueue :: "jobs_queue \<Rightarrow> string \<Rightarrow> job_ref \<Rightarrow> error + jobs_queue" where
  "enqueue s alias r =
     (if closed s then Inl RuntimeError
      else if \<not> processor_set s then Inl RuntimeError
      else queue_put (inc_pending_job (register_job (ensure_workers s alias) r) r) alias (Some r))"

text \<open>A limit is \<open>Optional[int]\<close>; \<open>per_user_limit and per_user_limit > 0\<close> holds for a positive int only.\<close>

definition limit_enabled :: "int option \<Rightarrow> bool" where
  "limit_enabled per_user_limit = (case per_user_limit of None \<Rightarrow> False | Some l \<Rightarrow> l \<noteq> 0 \<and> l > 0)"

definition enqueue_limited ::
  "jobs_queue \<Rightarrow> string \<Rightarrow> job_ref \<Rightarrow> int option \<Rightarrow> error + (bool \<times> jobs_queue)" where
  "enqueue_limited s alias r per_user_limit =
     (if closed s \<or> \<not> processor_set s then Inr (False, s)
      else let s1 = ensure_workers s alias in
        if limit_enabled per_user_limit \<and> user_id (jobs s1 r) \<noteq> 0
           \<and> pending_count_by_user s1 (user_id (jobs s1 r)) \<ge> the per_user_limit
        then Inr (False, s1)
        else (case queue_put (inc_pending_job (register_job s1 r) r) alias (Some r) of
                Inl e \<Rightarrow> Inl e
              | Inr s2 \<Rightarrow> Inr (True, s2)))"

definition can_enqueue :: "jobs_queue \<Rightarrow> int \<Rightarrow> int option \<Rightarrow> bool" where
  "can_enqueue s uid per_user_limit =
     (if uid \<le> 0 \<or> \<not> limit_enabled per_user_limit then True
      else pending_count_by_user s uid < the per_user_limit)"

definition reserve_user_slot :: "jobs_queue \<Rightarrow> int \<Rightarrow> int option \<Rightarrow> bool \<times> jobs_queue" where
  "reserve_user_slot s uid per_user_limit =
     (if uid \<le> 0 \<or> \<not> limit_enabled per_user_limit then (False, s)
      else if pending_count_by_user s uid \<ge> the per_user_limit then (False, s)
      else (True, inc_pending s uid))"

definition release_user_slot :: "jobs_queue \<Rightarrow> int \<Rightarrow> jobs_queue" where
  "release_user_slot s uid = (if uid \<le> 0 then s else dec_pending s uid)"

definition enqueue_reserved ::
  "jobs_queue \<Rightarrow> string \<Rightarrow> job_ref \<Rightarrow> bool \<Rightarrow> error + (bool \<times> jobs_queue)" where
  "enqueue_reserved s alias r reserved =
     (if closed s \<or> \<not> processor_set s then Inr (False, s)
      else let s1 = register_job (ensure_workers s alias) r;
               s2 = (if user_id (jobs s1 r) \<noteq> 0 \<and> \<not> reserved
                     then inc_pending s1 (user_id (jobs s1 r)) else s1)
           in (case queue_put s2 alias (Some r) of
                 Inl e \<Rightarrow> Inl e
               | Inr s3 \<Rightarrow> Inr (True, s3)))"

definition will_queue :: "jobs_queue \<Rightarrow> string \<Rightarrow> error + (bool \<times> jobs_queue)" where
  "will_queue s alias =
     (let s1 = ensure_workers s alias in
        case queues s1 alias of
          None \<Rightarrow> Inl KeyError
        | Some q \<Rightarrow>
            Inr (if length q > 0 then True
                 else if (case active_per_topic s1 alias of None \<Rightarrow> 0 | Some n \<Rightarrow> n)
                          \<ge> per_topic_limit s1 then True
                 else if max 0 (max_workers s1 - active_global s1) \<le> 0 then True
                 else False, s1))"

definition get_job :: "jobs_queue \<Rightarrow> int \<Rightarrow> job_ref option" where
  "get_job s mid = registry s mid"

definition cancel_job :: "jobs_queue \<Rightarrow> int \<Rightarrow> bool \<Rightarrow> bool \<times> jobs_queue" where
  "cancel_job s mid by_admin =
     (case registry s mid of
        None \<Rightarrow> (False, s)
      | Some r \<Rightarrow>
          if started (jobs s r) then (False, s)
          else if canceled (jobs s r) then (False, s)
          else (True,
                dec_pending_job
                  (s\<lparr>jobs := (jobs s)(r := (jobs s r)\<lparr>canceled := True, canceled_by_admin := by_admin\<rparr>)\<rparr>)
                  r))"

subsection \<open>The worker loop, one suspension point at a time\<close>

text \<open>
  The start transition: run once the global semaphore has been acquired. The pending
  counter of the job's user is decreased, the activity counters are increased and the
  job is marked started.
\<close>

definition worker_start :: "jobs_queue \<Rightarrow> string \<Rightarrow> job_ref \<Rightarrow> jobs_queue" where
  "worker_start s alias r =
     (let s1 = dec_pending_job (s\<lparr>global_sema := global_sema s - 1\<rparr>) r in
        s1\<lparr> active_global := active_global s1 + 1,
            active_per_topic := (active_per_topic s1)
               (alias \<mapsto> (case active_per_topic s1 alias of None \<Rightarrow> 0 | Some n \<Rightarrow> n) + 1),
            jobs := (jobs s1)(r := (jobs s1 r)\<lparr>started := True\<rparr>) \<rparr>)"

text \<open>The \<open>finally\<close> block, the release of the semaphore and the removal from the registry.\<close>

definition worker_finish :: "jobs_queue \<Rightarrow> string \<Rightarrow> job_ref \<Rightarrow> jobs_queue" where
  "worker_finish s alias r =
     s\<lparr> active_global := max 0 (active_global s - 1),
        active_per_topic := (active_per_topic s)
           (alias \<mapsto> max 0 ((case active_per_topic s alias of None \<Rightarrow> 1 | Some n \<Rightarrow> n) - 1)),
        global_sema := global_sema s + 1,
        registry := (registry s)(message_id (jobs s r) := None) \<rparr>"

text \<open>
  What a worker does from \<open>q.get()\<close> when the queue holds an item: stop on a poison pill
  or a closed controller, skip a canceled job, otherwise enter the semaphore, which
  either is free (the job starts at once, without suspension) or makes the worker wait.
\<close>

definition worker_take :: "jobs_queue \<Rightarrow> string \<Rightarrow> job_ref option \<Rightarrow> worker \<times> jobs_queue" where
  "worker_take s alias item =
     (case item of
        None \<Rightarrow> (WExited, s)
      | Some r \<Rightarrow>
          if closed s then (WExited, s)
          else if canceled (jobs s r)
            then (WIdle, s\<lparr>registry := (registry s)(message_id (jobs s r) := None)\<rparr>)
          else if global_sema s > 0 then (WRunning r, worker_start s alias r)
          else (WAcquiring r, s))"

definition set_worker :: "jobs_queue \<Rightarrow> string \<Rightarrow> nat \<Rightarrow> worker \<Rightarrow> jobs_queue" where
  "set_worker s alias i w =
     (case workers s alias of
        None \<Rightarrow> s
      | Some ws \<Rightarrow> s\<lparr>workers := (workers s)(alias \<mapsto> ws[i := w])\<rparr>)"

text \<open>
  One scheduling step of worker \<open>i\<close> of the pool of \<open>alias\<close>. A worker that cannot
  proceed (empty queue, no free permit, no such worker) leaves the state unchanged.
\<close>

definition worker_step :: "jobs_queue \<Rightarrow> string \<Rightarrow> nat \<Rightarrow> jobs_queue" where
  "worker_step s alias i =
     (case workers s alias of
        None \<Rightarrow> s
      | Some ws \<Rightarrow>
          if i \<ge> length ws then s
          else (case ws ! i of
                  WExited \<Rightarrow> s
                | WIdle \<Rightarrow>
                    (case queues s alias of
                       Some (item # q) \<Rightarrow>
                         (let (w, s1) = worker_take (s\<lparr>queues := (queues s)(alias \<mapsto> q)\<rparr>) alias item
                          in set_worker s1 alias i w)
                     | _ \<Rightarrow> s)
                | WAcquiring r \<Rightarrow>
                    if global_sema s > 0 then set_worker (worker_start s alias r) alias i (WRunning r)
                    else s
                | WRunning r \<Rightarrow> set_worker (worker_finish s alias r) alias i WIdle))"

text \<open>
  \<open>shutdown\<close>: the flag and the poison pills first; the maps are cleared once every
  worker task has been awaited.
\<close>

definition shutdown_signal :: "jobs_queue \<Rightarrow> jobs_queue" where
  "shutdown_signal s =
     s\<lparr> closed := True,
        queues := (\<lambda>alias. case queues s alias of
                     None \<Rightarrow> None
                   | Some q \<Rightarrow> Some (q @ replicate
                        (case workers s alias of None \<Rightarrow> 1 | Some [] \<Rightarrow> 1 | Some ws \<Rightarrow> length ws) None)) \<rparr>"

definition shutdown_clear :: "jobs_queue \<Rightarrow> jobs_queue" where
  "shutdown_clear s =
     s\<lparr> queues := Map.empty, workers := Map.empty, registry := Map.empty,
        pending_by_user := Map.empty \<rparr>"

subsection \<open>Runs of the controller\<close>

datatype op =
    SetProcessor
  | Enqueue string job_ref
  | EnqueueLimited string job_ref "int option"
  | EnqueueReserved string job_ref bool
  | ReserveUserSlot int "int option"
  | ReleaseUserSlot int
  | CancelJob int bool
  | WillQueue string
  | WorkerStep string nat
  | ShutdownSignal
  | ShutdownClear

text \<open>
  The state after one operation. \<open>enqueue\<close> raises \<open>RuntimeError\<close> before it changes
  anything; the subscript of a missing queue is the only other exception, and it cannot
  occur where every pool has a queue (\<open>queues_cover\<close> below, which every operation
  preserves).
\<close>

definition exec :: "jobs_queue \<Rightarrow> op \<Rightarrow> jobs_queue" where
  "exec s a =
     (case a of
        SetProcessor \<Rightarrow> set_processor s
      | Enqueue alias r \<Rightarrow> (case enqueue s alias r of Inl e \<Rightarrow> s | Inr s' \<Rightarrow> s')
      | EnqueueLimited alias r per_user_limit \<Rightarrow>
          (case enqueue_limited s alias r per_user_limit of Inl e \<Rightarrow> s | Inr (b, s') \<Rightarrow> s')
      | EnqueueReserved alias r reserved \<Rightarrow>
          (case enqueue_reserved s alias r reserved of Inl e \<Rightarrow> s | Inr (b, s') \<Rightarrow> s')
      | ReserveUserSlot uid per_user_limit \<Rightarrow> snd (reserve_user_slot s uid per_user_limit)
      | ReleaseUserSlot uid \<Rightarrow> release_user_slot s uid
      | CancelJob mid by_admin \<Rightarrow> snd (cancel_job s mid by_admin)
      | WillQueue alias \<Rightarrow> (case will_queue s alias of Inl e \<Rightarrow> s | Inr (b, s') \<Rightarrow> s')
      | WorkerStep alias i \<Rightarrow> worker_step s alias i
      | ShutdownSignal \<Rightarrow> shutdown_signal s
      | ShutdownClear \<Rightarrow> shutdown_clear s)"

definition run :: "jobs_queue \<Rightarrow> op list \<Rightarrow> jobs_queue" where
  "run s ops = foldl exec s ops"

text \<open>Every entry of the pending-counter map is strictly positive.\<close>

definition pending_positive :: "jobs_queue \<Rightarrow> bool" where
  "pending_positive s = (\<forall>uid c. pending_by_user s uid = Some c \<longrightarrow> 0 < c)"

text \<open>Every worker pool has the configured size.\<close>

definition pools_sized :: "jobs_queue \<Rightarrow> int \<Rightarrow> bool" where
  "pools_sized s ptl =
     (per_topic_limit s = max 1 ptl \<and>
      (\<forall>alias ws. workers s alias = Some ws \<longrightarrow> int (length ws) = max 1 ptl))"

text \<open>Every alias with a worker pool has a queue, so the queue subscripts never raise.\<close>

definition queues_cover :: "jobs_queue \<Rightarrow> bool" where
  "queues_cover s = (\<forall>alias ws. workers s alias = Some ws \<longrightarrow> queues s alias \<noteq> None)"

text \<open>No operation resets a flag of a job, and none changes its key or its user.\<close>

definition job_grows :: "generate_job \<Rightarrow> generate_job \<Rightarrow> bool" where
  "job_grows j j' =
     (message_id j' = message_id j \<and> user_id j' = user_id j
      \<and> (canceled j \<longrightarrow> canceled j') \<and> (started j \<longrightarrow> started j'))"

subsection \<open>A concrete controller\<close>

text \<open>
  Jobs by reference: job 0 of user 7 for topic \<open>a\<close>, every other job of user 5 for
  topic \<open>b\<close>; job \<open>r\<close> has the placeholder message id \<open>100 + r\<close>. A controller with one
  global worker and one worker per topic, its processor set.
\<close>

definition example_jobs :: "job_ref \<Rightarrow> generate_job" where
  "example_jobs r =
     \<lparr> chat_id = 1, thread_id = 1, message_id = 100 + int r,
       user_id = (if r = 0 then 7 else 5),
       topic_alias = (if r = 0 then ''a'' else ''b''),
       canceled = False, canceled_by_admin = False, started = False \<rparr>"

definition example_queue :: jobs_queue where
  "example_queue = set_processor (projr (init example_jobs 1 1))"

text \<open>
  A run under a per-user limit of 2. Job 0 holds the only permit. Job 1 is dequeued by
  the worker of topic \<open>b\<close>, which waits for the semaphore; job 1 is canceled while it
  waits. Jobs 2 and 3 are accepted. Job 0 ends; the worker of \<open>b\<close> gets the permit and
  runs its start transition on job 1, finishes it, and starts job 2. Job 4 is then
  accepted.
\<close>

definition race_ops :: "op list" where
  "race_ops =
     [Enqueue ''a'' 0, WorkerStep ''a'' 0,
      EnqueueLimited ''b'' 1 (Some 2), WorkerStep ''b'' 0,
      CancelJob 101 False,
      EnqueueLimited ''b'' 2 (Some 2), EnqueueLimited ''b'' 3 (Some 2),
      WorkerStep ''a'' 0,
      WorkerStep ''b'' 0, WorkerStep ''b'' 0, WorkerStep ''b'' 0,
      EnqueueLimited ''b'' 4 (Some 2)]"

section \<open>Workflow templating (app/comfy/client.py, \<open>prepare_workflow\<close>)\<close>

subsection \<open>JSON values, dictionaries and strings\<close>

text \<open>
  A workflow is the JSON object read from workflow.json. A Python \<open>dict\<close> keeps insertion
  order: it is an association list, updated in place for a known key, extended at the end
  for a new one (\<open>AList.update\<close>). Floats are carried as mantissa and exponent; no
  arithmetic is done on them.
\<close>

datatype json =
    JNull
  | JBool bool
  | JInt int
  | JFloat int int
  | JStr string
  | JList "json list"
  | JObj "(string \<times> json) list"

type_synonym pydict = "(string \<times> json) list"

text \<open>\<open>d.get(k, None)\<close> followed by an \<open>is not None\<close> test: a key bound to \<open>null\<close> counts as absent.\<close>

definition get_not_none :: "pydict \<Rightarrow> string \<Rightarrow> json option" where
  "get_not_none d k = (case map_of d k of Some JNull \<Rightarrow> None | v \<Rightarrow> v)"

text \<open>
  Strings are taken as ASCII text: \<open>str.lower\<close> maps \<open>A\<close>..\<open>Z\<close> to \<open>a\<close>..\<open>z\<close> (adding
  32 to the code, that is, setting bit 5), and
  \<open>str.strip\<close> removes the ASCII white space of Python (codes 9 to 13 and 28 to 32) at
  both ends.
\<close>

definition char_lower :: "char \<Rightarrow> char" where
  "char_lower c =
     (let n = (of_char c :: nat) in
        if 65 \<le> n \<and> n \<le> 90
        then (case c of Char b0 b1 b2 b3 b4 b5 b6 b7 \<Rightarrow> Char b0 b1 b2 b3 b4 True b6 b7)
        else c)"

definition lower :: "string \<Rightarrow> string" where
  "lower s = map char_lower s"

definition is_space :: "char \<Rightarrow> bool" where
  "is_space c = (let n = (of_char c :: nat) in (9 \<le> n \<and> n \<le> 13) \<or> (28 \<le> n \<and> n \<le> 32))"

definition strip :: "string \<Rightarrow> string" where
  "strip s = rev (dropWhile is_space (rev (dropWhile is_space s)))"

definition startswith :: "string \<Rightarrow> string \<Rightarrow> bool" where
  "startswith s p = (take (length p) s = p)"

text \<open>\<open>s.split(":", 1)[1]\<close>: the text after the first colon; \<open>IndexError\<close> when there is none.\<close>

definition after_colon :: "string \<Rightarrow> string option" where
  "after_colon s =
     (if CHR '':'' \<in> set s then Some (tl (dropWhile (\<lambda>c. c \<noteq> CHR '':'') s)) else None)"

subsection \<open>Rules\<close>

record node_rule =
  rule_type :: string
  node_ids :: "string list"
  key :: string
  param :: "string option"

text \<open>\<open>rtype = (rule.type or "").strip().lower()\<close>\<close>

definition rtype_of :: "node_rule \<Rightarrow> string" where
  "rtype_of rule = lower (strip (rule_type rule))"

subsection \<open>Writing one input\<close>

text \<open>
  \<open>wf[nid]["inputs"][key] = val\<close>: \<open>KeyError\<close> for a missing node or a node without
  \<open>inputs\<close>, \<open>TypeError\<close> when the node or its \<open>inputs\<close> is not an object.
\<close>

definition set_input :: "pydict \<Rightarrow> string \<Rightarrow> string \<Rightarrow> json \<Rightarrow> error + pydict" where
  "set_input wfl nid k val =
     (case map_of wfl nid of
        None \<Rightarrow> Inl KeyError
      | Some (JObj node) \<Rightarrow>
          (case map_of node ''inputs'' of
             None \<Rightarrow> Inl KeyError
           | Some (JObj inputs) \<Rightarrow>
               Inr (AList.update nid
                      (JObj (AList.update ''inputs'' (JObj (AList.update k val inputs)) node)) wfl)
           | Some _ \<Rightarrow> Inl TypeError)
      | Some _ \<Rightarrow> Inl TypeError)"

text \<open>\<open>for nid in rule.node_ids: wf[nid]["inputs"][rule.key] = val\<close>, left at the first exception.\<close>

fun set_inputs :: "pydict \<Rightarrow> string list \<Rightarrow> string \<Rightarrow> json \<Rightarrow> error + pydict" where
  "set_inputs wfl [] k val = Inr wfl"
| "set_inputs wfl (nid # nids) k val =
     (case set_input wfl nid k val of
        Inl e \<Rightarrow> Inl e
      | Inr wfl' \<Rightarrow> set_inputs wfl' nids k val)"

subsection \<open>Unlinking and removing nodes\<close>

text \<open>The test of line 107: a list whose first element is a string naming a removed node.\<close>

definition is_edge_to :: "string list \<Rightarrow> json \<Rightarrow> bool" where
  "is_edge_to remove_ids v =
     (case v of JList (JStr src # rest) \<Rightarrow> src \<in> set remove_ids | _ \<Rightarrow> False)"

text \<open>
  The body of the loop over the nodes: a node that is not an object makes \<open>node.get\<close>
  raise, which is swallowed; \<open>inputs\<close> that is not an object is skipped; otherwise every
  input that is an edge to a removed node is deleted.
\<close>

definition unlink_node :: "string list \<Rightarrow> json \<Rightarrow> json" where
  "unlink_node remove_ids node =
     (case node of
        JObj attrs \<Rightarrow>
          (case map_of attrs ''inputs'' of
             Some (JObj inputs) \<Rightarrow>
               JObj (AList.update ''inputs''
                       (JObj (filter (\<lambda>(k, v). \<not> is_edge_to remove_ids v) inputs)) attrs)
           | _ \<Rightarrow> node)
      | _ \<Rightarrow> node)"

definition unlink_and_remove_nodes :: "pydict \<Rightarrow> string list \<Rightarrow> pydict" where
  "unlink_and_remove_nodes workflow remove_ids =
     (if remove_ids = [] then workflow
      else filter (\<lambda>(nid, node). nid \<notin> set remove_ids)
             (map (\<lambda>(nid, node). (nid, unlink_node remove_ids node)) workflow))"

subsection \<open>The passes\<close>

text \<open>A loop over the rules whose body may raise.\<close>

fun for_rules ::
  "(node_rule \<Rightarrow> pydict \<Rightarrow> error + pydict) \<Rightarrow> node_rule list \<Rightarrow> pydict \<Rightarrow> error + pydict" where
  "for_rules body [] wfl = Inr wfl"
| "for_rules body (rule # rules) wfl =
     (case body rule wfl of
        Inl e \<Rightarrow> Inl e
      | Inr wfl' \<Rightarrow> for_rules body rules wfl')"

text \<open>The parameter name of a generic text rule (lines 136 to 143).\<close>

definition text_param_key :: "node_rule \<Rightarrow> string option" where
  "text_param_key rule =
     (let rtype = rtype_of rule in
        if startswith rtype ''text:'' \<or> startswith rtype ''string:''
          then map_option strip (after_colon rtype)
        else if rtype = ''text'' \<or> rtype = ''string''
          then (case param rule of
                  None \<Rightarrow> None
                | Some p \<Rightarrow> if p = [] then None else Some (strip p))
        else None)"

text \<open>Body of the first loop (lines 118 to 149): prompt, negative prompt and generic text.\<close>

definition text_rule :: "string \<Rightarrow> pydict \<Rightarrow> node_rule \<Rightarrow> pydict \<Rightarrow> error + pydict" where
  "text_rule prompt eff_params rule wfl =
     (let rtype = rtype_of rule in
        if rtype = [] then Inr wfl
        else if rtype = ''prompt'' then set_inputs wfl (node_ids rule) (key rule) (JStr prompt)
        else if rtype = ''negative_prompt'' then
          (case get_not_none eff_params ''negative_prompt'' of
             None \<Rightarrow> Inr wfl
           | Some neg \<Rightarrow> set_inputs wfl (node_ids rule) (key rule) neg)
        else
          (case text_param_key rule of
             None \<Rightarrow> Inr wfl
           | Some param_key \<Rightarrow>
               if param_key = [] then Inr wfl
               else (case get_not_none eff_params param_key of
                       None \<Rightarrow> Inr wfl
                     | Some val \<Rightarrow> set_inputs wfl (node_ids rule) (key rule) val)))"

text \<open>Body of the second loop (lines 153 to 159): the single input image.\<close>

definition input_image_rule :: "pydict \<Rightarrow> node_rule \<Rightarrow> pydict \<Rightarrow> error + pydict" where
  "input_image_rule eff_params rule wfl =
     (if rtype_of rule = ''input_image'' then
        (case get_not_none eff_params ''input_image'' of
           None \<Rightarrow> Inr wfl
         | Some val \<Rightarrow> set_inputs wfl (node_ids rule) (key rule) val)
      else Inr wfl)"

text \<open>
  Lines 170 to 177: file names are written to the node ids in order, up to the shorter of
  the two lists; an assignment that raises is skipped.
\<close>

fun assign_images :: "pydict \<Rightarrow> string list \<Rightarrow> string \<Rightarrow> json list \<Rightarrow> pydict" where
  "assign_images wfl (nid # nids) k (fname # vals) =
     assign_images (case set_input wfl nid k fname of Inl e \<Rightarrow> wfl | Inr wfl' \<Rightarrow> wfl') nids k vals"
| "assign_images wfl nids k vals = wfl"

text \<open>Body of the third loop (lines 162 to 186): several input images, with pruning.\<close>

definition input_images_rule :: "pydict \<Rightarrow> node_rule \<Rightarrow> pydict \<Rightarrow> pydict" where
  "input_images_rule eff_params rule wfl =
     (if rtype_of rule \<noteq> ''input_images'' then wfl
      else (case map_of eff_params ''input_images'' of
              Some (JList (v # vs)) \<Rightarrow>
                (let vals = v # vs;
                     wf1 = assign_images wfl (node_ids rule) (key rule) vals;
                     used_count = min (length vals) (length (node_ids rule))
                 in if used_count < length (node_ids rule)
                    then unlink_and_remove_nodes wf1 (drop used_count (node_ids rule))
                    else wf1)
            | _ \<Rightarrow> unlink_and_remove_nodes wfl (node_ids rule)))"

text \<open>Body of the fourth loop (lines 189 to 198): every other parameter, keyed by the rule type.\<close>

definition scalar_rule :: "pydict \<Rightarrow> node_rule \<Rightarrow> pydict \<Rightarrow> error + pydict" where
  "scalar_rule eff_params rule wfl =
     (let rtype = rtype_of rule in
        if rtype = ''prompt'' \<or> rtype = ''negative_prompt'' \<or> rtype = ''input_image''
           \<or> rtype = ''input_images'' \<or> startswith rtype ''text'' \<or> startswith rtype ''string''
        then Inr wfl
        else (case get_not_none eff_params rtype of
                None \<Rightarrow> Inr wfl
              | Some val \<Rightarrow> set_inputs wfl (node_ids rule) (key rule) val))"

subsection \<open>The random source and the whole function\<close>

text \<open>
  The generator of \<open>random\<close> is part of the environment: a sequence of raw draws and the
  number of draws made so far. \<open>randint lo hi\<close> takes one draw and maps it into the
  closed range.
\<close>

type_synonym rng = "(nat \<Rightarrow> int) \<times> nat"

definition randint :: "int \<Rightarrow> int \<Rightarrow> rng \<Rightarrow> int \<times> rng" where
  "randint lo hi g = (lo + fst g (snd g) mod (hi - lo + 1), (fst g, Suc (snd g)))"

definition draws :: "rng \<Rightarrow> nat" where
  "draws g = snd g"

text \<open>Lines 89 to 92: the effective parameters always carry a seed.\<close>

definition effective_params :: "rng \<Rightarrow> pydict \<Rightarrow> pydict \<times> rng" where
  "effective_params g params =
     (case get_not_none params ''seed'' of
        None \<Rightarrow> (let (seed, g') = randint 0 (2 ^ 48 - 1) g
                 in (AList.update ''seed'' (JInt seed) params, g'))
      | Some s \<Rightarrow> (params, g))"

definition apply_rules :: "pydict \<Rightarrow> node_rule list \<Rightarrow> string \<Rightarrow> pydict \<Rightarrow> error + pydict" where
  "apply_rules wfl nodes prompt eff_params =
     (case for_rules (text_rule prompt eff_params) nodes wfl of
        Inl e \<Rightarrow> Inl e
      | Inr wf1 \<Rightarrow>
          (case for_rules (input_image_rule eff_params) nodes wf1 of
             Inl e \<Rightarrow> Inl e
           | Inr wf2 \<Rightarrow>
               for_rules (scalar_rule eff_params) nodes
                 (fold (input_images_rule eff_params) nodes wf2)))"

definition prepare_workflow ::
  "rng \<Rightarrow> pydict \<Rightarrow> node_rule list \<Rightarrow> string \<Rightarrow> pydict \<Rightarrow> (error + pydict) \<times> rng" where
  "prepare_workflow g base_workflow nodes prompt params =
     (let (eff_params, g') = effective_params g params
      in (apply_rules base_workflow nodes prompt eff_params, g'))"

subsection \<open>The six passes of the specification\<close>

text \<open>
  The reference rendering, written from the words of the specification: six passes, each
  over the whole rule list, in the order prompt, negative prompt, generic text, single
  input image, several input images with pruning, scalar catch-all.
\<close>

definition then_do :: "error + 'a \<Rightarrow> ('a \<Rightarrow> error + 'b) \<Rightarrow> error + 'b" where
  "then_do x f = (case x of Inl e \<Rightarrow> Inl e | Inr v \<Rightarrow> f v)"

definition spec_prompt_rule :: "string \<Rightarrow> node_rule \<Rightarrow> pydict \<Rightarrow> error + pydict" where
  "spec_prompt_rule prompt rule wfl =
     (if rtype_of rule = ''prompt''
      then set_inputs wfl (node_ids rule) (key rule) (JStr prompt)
      else Inr wfl)"

definition spec_negative_prompt_rule :: "pydict \<Rightarrow> node_rule \<Rightarrow> pydict \<Rightarrow> error + pydict" where
  "spec_negative_prompt_rule eff_params rule wfl =
     (if rtype_of rule = ''negative_prompt''
      then (case get_not_none eff_params ''negative_prompt'' of
              None \<Rightarrow> Inr wfl
            | Some neg \<Rightarrow> set_inputs wfl (node_ids rule) (key rule) neg)
      else Inr wfl)"

definition spec_text_rule :: "pydict \<Rightarrow> node_rule \<Rightarrow> pydict \<Rightarrow> error + pydict" where
  "spec_text_rule eff_params rule wfl =
     (case text_param_key rule of
        None \<Rightarrow> Inr wfl
      | Some name \<Rightarrow>
          if name = [] then Inr wfl
          else (case get_not_none eff_params name of
                  None \<Rightarrow> Inr wfl
                | Some val \<Rightarrow> set_inputs wfl (node_ids rule) (key rule) val))"

definition spec_render_passes ::
  "pydict \<Rightarrow> node_rule list \<Rightarrow> string \<Rightarrow> pydict \<Rightarrow> error + pydict" where
  "spec_render_passes template rules prompt eff_params =
     then_do (for_rules (spec_prompt_rule prompt) rules template) (\<lambda>g1.
     then_do (for_rules (spec_negative_prompt_rule eff_params) rules g1) (\<lambda>g2.
     then_do (for_rules (spec_text_rule eff_params) rules g2) (\<lambda>g3.
     then_do (for_rules (input_image_rule eff_params) rules g3) (\<lambda>g4.
     for_rules (scalar_rule eff_params) rules
       (fold (input_images_rule eff_params) rules g4)))))"

definition spec_render ::
  "rng \<Rightarrow> pydict \<Rightarrow> node_rule list \<Rightarrow> string \<Rightarrow> pydict \<Rightarrow> (error + pydict) \<times> rng" where
  "spec_render g template rules prompt params =
     (let (eff_params, g') = effective_params g params
      in (spec_render_passes template rules prompt eff_params, g'))"

text \<open>
  The pass of the specification in which a rule of the first loop acts: 1 for a prompt
  rule, 2 for a negative-prompt rule, 3 for a generic text rule with a parameter name;
  no pass for any other rule. A rule list is in pass order when these numbers never
  decrease along the list.
\<close>

definition text_pass :: "node_rule \<Rightarrow> nat option" where
  "text_pass rule =
     (if rtype_of rule = ''prompt'' then Some 1
      else if rtype_of rule = ''negative_prompt'' then Some 2
      else (case text_param_key rule of
              None \<Rightarrow> None
            | Some name \<Rightarrow> if name = [] then None else Some 3))"

fun in_pass_order :: "nat \<Rightarrow> node_rule list \<Rightarrow> bool" where
  "in_pass_order n [] = True"
| "in_pass_order n (rule # rules) =
     (case text_pass rule of
        None \<Rightarrow> in_pass_order n rules
      | Some p \<Rightarrow> n \<le> p \<and> in_pass_order p rules)"

subsection \<open>Reading a rendered graph\<close>

text \<open>The \<open>inputs\<close> object of a node of the graph, if the node exists and has one.\<close>

definition inputs_of :: "pydict \<Rightarrow> string \<Rightarrow> pydict option" where
  "inputs_of wfl nid =
     (case map_of wfl nid of
        Some (JObj node) \<Rightarrow>
          (case map_of node ''inputs'' of Some (JObj inputs) \<Rightarrow> Some inputs | _ \<Rightarrow> None)
      | _ \<Rightarrow> None)"

text \<open>Node \<open>nid\<close> exists, has an \<open>inputs\<close> object, and its input \<open>k\<close> holds \<open>v\<close>.\<close>

definition has_input :: "pydict \<Rightarrow> string \<Rightarrow> string \<Rightarrow> json \<Rightarrow> bool" where
  "has_input wfl nid k v =
     (case inputs_of wfl nid of None \<Rightarrow> False | Some inputs \<Rightarrow> map_of inputs k = Some v)"

definition node_inputs :: "json \<Rightarrow> pydict" where
  "node_inputs node =
     (case node of
        JObj attrs \<Rightarrow> (case map_of attrs ''inputs'' of Some (JObj inputs) \<Rightarrow> inputs | _ \<Rightarrow> [])
      | _ \<Rightarrow> [])"

text \<open>The inputs of the graph, as node id and input name, that are edges to one of the given ids.\<close>

definition dangling_edges :: "string list \<Rightarrow> pydict \<Rightarrow> (string \<times> string) list" where
  "dangling_edges removed wfl =
     concat (map (\<lambda>(nid, node).
                    map (\<lambda>(k, v). (nid, k)) (filter (\<lambda>(k, v). is_edge_to removed v) (node_inputs node)))
                 wfl)"

text \<open>The list under \<open>input_images\<close>; nothing when the key is absent or not a list.\<close>

definition supplied_images :: "pydict \<Rightarrow> json list" where
  "supplied_images params =
     (case map_of params ''input_images'' of Some (JList vals) \<Rightarrow> vals | _ \<Rightarrow> [])"

subsection \<open>Concrete graphs\<close>

definition example_rng :: rng where
  "example_rng = (\<lambda>n. 12345 + int n, 0)"

text \<open>Scenario B: three image loaders feeding one node, and a rule for their file names.\<close>

definition load_image :: "string \<Rightarrow> json" where
  "load_image fname = JObj [(''class_type'', JStr ''LoadImage''), (''inputs'', JObj [(''image'', JStr fname)])]"

definition example_graph :: pydict where
  "example_graph =
     [(''5'', JObj [(''class_type'', JStr ''CLIPTextEncode''), (''inputs'', JObj [(''text'', JStr [])])]),
      (''10'', load_image ''x.png''), (''11'', load_image ''x.png''), (''12'', load_image ''x.png''),
      (''20'', JObj [(''class_type'', JStr ''Stitch''),
                     (''inputs'', JObj [(''a'', JList [JStr ''10'', JInt 0]),
                                        (''b'', JList [JStr ''11'', JInt 0]),
                                        (''c'', JList [JStr ''12'', JInt 0]),
                                        (''seed'', JInt 0)])])]"

definition images_rule :: node_rule where
  "images_rule = \<lparr>rule_type = ''input_images'', node_ids = [''10'', ''11'', ''12''], key = ''image'', param = None\<rparr>"

definition example_rules :: "node_rule list" where
  "example_rules =
     [\<lparr>rule_type = ''prompt'', node_ids = [''5''], key = ''text'', param = None\<rparr>,
      images_rule,
      \<lparr>rule_type = ''seed'', node_ids = [''20''], key = ''seed'', param = None\<rparr>]"

text \<open>A generic text rule placed before a prompt rule, both writing the same input.\<close>

definition text_first_rules :: "node_rule list" where
  "text_first_rules =
     [\<lparr>rule_type = ''text:caption'', node_ids = [''5''], key = ''text'', param = None\<rparr>,
      \<lparr>rule_type = ''prompt'', node_ids = [''5''], key = ''text'', param = None\<rparr>]"

definition text_graph :: pydict where
  "text_graph = [(''5'', JObj [(''class_type'', JStr ''CLIPTextEncode''), (''inputs'', JObj [(''text'', JStr [])])])]"

section \<open>Protocol client (app/comfy/client.py, \<open>submit_and_wait\<close>)\<close>

subsection \<open>Results, errors and the environment\<close>

record media_url =
  url :: string
  filename :: string
  subfolder :: string
  kind :: string
  mime_type :: string

text \<open>Times are seconds as read from \<open>time.time()\<close>, taken as real numbers.\<close>

record generation_result =
  media :: "media_url list"
  comfy_queue_s :: real
  comfy_exec_s :: real

text \<open>
  \<open>ComfyError\<close> carries what it was raised with. It is raised in the loop only; any
  other exception of the function is one of the Python errors above or a failure of the
  transport (socket or HTTP).
\<close>

datatype failure = PyError error | TransportError

datatype client_error = ComfyError json | Failure failure

text \<open>
  What \<open>ws.recv()\<close> gives in one iteration of the loop: a timeout of the socket, a
  binary frame, a text frame (parsed, or not parsable as JSON), or another exception.
\<close>

datatype frame = WsTimeout | Binary | Text "json option" | WsFailure

text \<open>
  One iteration of the loop as the environment presents it: the clock read at the head
  of the loop, the frame received, and the clock read while the frame is handled.
\<close>

record tick =
  now :: real
  frame :: frame
  stamp :: real

text \<open>
  The environment of one call: the clock at line 222, the outcome of \<open>ws.connect\<close>, the
  outcome of the POST to \<open>/prompt\<close>, the clock at line 237, the iterations of the loop,
  the outcome of the resolution of the history into media (lines 291 to 436, which
  neither read nor write the timing variables), and the clock at the end.
\<close>

record environment =
  start_ts :: real
  connect_error :: "failure option"
  post_result :: "failure + json"
  queued_ts :: real
  ticks :: "tick list"
  resolve :: "failure + media_url list"
  final_ts :: real

subsection \<open>Reading JSON as Python does\<close>

text \<open>\<open>x.get(k)\<close>: \<open>None\<close> for a missing key, \<open>AttributeError\<close> when \<open>x\<close> is not a dict.\<close>

definition py_get :: "json \<Rightarrow> string \<Rightarrow> error + json" where
  "py_get x k =
     (case x of
        JObj kv \<Rightarrow> Inr (case map_of kv k of None \<Rightarrow> JNull | Some v \<Rightarrow> v)
      | _ \<Rightarrow> Inl AttributeError)"

text \<open>\<open>data.get("data", {})\<close>\<close>

definition py_get_data :: "json \<Rightarrow> error + json" where
  "py_get_data x =
     (case x of
        JObj kv \<Rightarrow> Inr (case map_of kv ''data'' of None \<Rightarrow> JObj [] | Some v \<Rightarrow> v)
      | _ \<Rightarrow> Inl AttributeError)"

text \<open>\<open>x[k]\<close> on the response of the POST.\<close>

definition py_subscript :: "json \<Rightarrow> string \<Rightarrow> error + json" where
  "py_subscript x k =
     (case x of
        JObj kv \<Rightarrow> (case map_of kv k of None \<Rightarrow> Inl KeyError | Some v \<Rightarrow> Inr v)
      | _ \<Rightarrow> Inl TypeError)"

text \<open>Python truth of a JSON value, as used by \<open>or\<close>.\<close>

definition truthy :: "json \<Rightarrow> bool" where
  "truthy v =
     (case v of
        JNull \<Rightarrow> False
      | JBool b \<Rightarrow> b
      | JInt n \<Rightarrow> n \<noteq> 0
      | JFloat m e \<Rightarrow> m \<noteq> 0
      | JStr s \<Rightarrow> s \<noteq> []
      | JList xs \<Rightarrow> xs \<noteq> []
      | JObj kv \<Rightarrow> kv \<noteq> [])"

subsection \<open>Handling one message\<close>

text \<open>
  What lines 259 to 286 do with a parsed message, apart from reading the clock: nothing,
  note that a node is executing, finish, raise \<open>ComfyError\<close> with a message, or raise
  because the message has not the expected shape. The execution id is a string, for
  which \<open>!=\<close> is inequality of values.
\<close>

datatype action = Ignore | NodeStarted | Finished | Failed json | Crash error

definition on_message :: "json \<Rightarrow> json \<Rightarrow> action" where
  "on_message prompt_id data =
     (case py_get data ''type'' of
        Inl e \<Rightarrow> Crash e
      | Inr t \<Rightarrow>
          if t = JStr ''executing'' then
            (case py_get_data data of
               Inl e \<Rightarrow> Crash e
             | Inr d \<Rightarrow>
                 (case py_get d ''prompt_id'' of
                    Inl e \<Rightarrow> Crash e
                  | Inr p \<Rightarrow>
                      if p \<noteq> prompt_id then Ignore
                      else (case py_get d ''node'' of
                              Inl e \<Rightarrow> Crash e
                            | Inr node \<Rightarrow> if node \<noteq> JNull then NodeStarted else Finished)))
          else if t = JStr ''execution_error'' then
            (case py_get_data data of
               Inl e \<Rightarrow> Crash e
             | Inr d \<Rightarrow>
                 (case py_get d ''exception_message'' of
                    Inl e \<Rightarrow> Crash e
                  | Inr m \<Rightarrow> Failed (if truthy m then m else JStr ''ComfyUI execution error'')))
          else Ignore)"

definition event_of :: "json \<Rightarrow> tick \<Rightarrow> action" where
  "event_of prompt_id tk =
     (case frame tk of Text (Some data) \<Rightarrow> on_message prompt_id data | _ \<Rightarrow> Ignore)"

subsection \<open>The loop\<close>

datatype wait_result =
    TimedOut
  | RemoteError json
  | Raised error
  | Closed
  | Done "real option" real

text \<open>
  Lines 245 to 286. The loop runs on the iterations the environment provides; when they
  are used up before the loop has ended, the call is still waiting and there is no
  result yet.
\<close>

fun await_events ::
  "real \<Rightarrow> real \<Rightarrow> json \<Rightarrow> real option \<Rightarrow> tick list \<Rightarrow> wait_result option" where
  "await_events start run_timeout prompt_id t_exec_start [] = None"
| "await_events start run_timeout prompt_id t_exec_start (tk # rest) =
     (if now tk - start > run_timeout then Some TimedOut
      else (case frame tk of
              WsTimeout \<Rightarrow> await_events start run_timeout prompt_id t_exec_start rest
            | Binary \<Rightarrow> await_events start run_timeout prompt_id t_exec_start rest
            | WsFailure \<Rightarrow> Some Closed
            | Text None \<Rightarrow> await_events start run_timeout prompt_id t_exec_start rest
            | Text (Some data) \<Rightarrow>
                (case on_message prompt_id data of
                   Ignore \<Rightarrow> await_events start run_timeout prompt_id t_exec_start rest
                 | NodeStarted \<Rightarrow>
                     await_events start run_timeout prompt_id
                       (case t_exec_start of None \<Rightarrow> Some (stamp tk) | Some t \<Rightarrow> Some t) rest
                 | Finished \<Rightarrow> Some (Done t_exec_start (stamp tk))
                 | Failed err \<Rightarrow> Some (RemoteError err)
                 | Crash e \<Rightarrow> Some (Raised e))))"

subsection \<open>Timings and the whole call\<close>

text \<open>\<open>t_exec_done or time.time()\<close>: the clock is read again when \<open>t_exec_done\<close> is \<open>None\<close> or \<open>0.0\<close>.\<close>

definition done_or_now :: "real option \<Rightarrow> real \<Rightarrow> real" where
  "done_or_now t_exec_done clock =
     (case t_exec_done of None \<Rightarrow> clock | Some t \<Rightarrow> if t = 0 then clock else t)"

text \<open>Lines 439 to 446.\<close>

definition compute_timings ::
  "real \<Rightarrow> real option \<Rightarrow> real option \<Rightarrow> real option \<Rightarrow> real \<Rightarrow> real \<times> real" where
  "compute_timings start t_queued t_exec_start t_exec_done clock =
     (let tq = (case t_queued of None \<Rightarrow> start | Some t \<Rightarrow> t) in
        case t_exec_start of
          None \<Rightarrow> (max 0 (done_or_now t_exec_done clock - tq), 0)
        | Some ts \<Rightarrow> (max 0 (ts - tq), max 0 (done_or_now t_exec_done clock - ts)))"

definition timeout_error :: client_error where
  "timeout_error = ComfyError (JStr ''Generation timeout exceeded'')"

definition submit_and_wait :: "real \<Rightarrow> environment \<Rightarrow> (client_error + generation_result) option" where
  "submit_and_wait run_timeout env =
     (case connect_error env of
        Some e \<Rightarrow> Some (Inl (Failure e))
      | None \<Rightarrow>
          (case post_result env of
             Inl e \<Rightarrow> Some (Inl (Failure e))
           | Inr res \<Rightarrow>
               (case py_subscript res ''prompt_id'' of
                  Inl e \<Rightarrow> Some (Inl (Failure (PyError e)))
                | Inr prompt_id \<Rightarrow>
                    (case await_events (start_ts env) run_timeout prompt_id None (ticks env) of
                       None \<Rightarrow> None
                     | Some TimedOut \<Rightarrow> Some (Inl timeout_error)
                     | Some (RemoteError err) \<Rightarrow> Some (Inl (ComfyError err))
                     | Some (Raised e) \<Rightarrow> Some (Inl (Failure (PyError e)))
                     | Some Closed \<Rightarrow> Some (Inl (Failure TransportError))
                     | Some (Done t_exec_start t_exec_done) \<Rightarrow>
                         (case resolve env of
                            Inl e \<Rightarrow> Some (Inl (Failure e))
                          | Inr ms \<Rightarrow>
                              (let (q, x) = compute_timings (start_ts env) (Some (queued_ts env))
                                              t_exec_start (Some t_exec_done) (final_ts env)
                               in Some (Inr \<lparr> media = ms, comfy_queue_s = q, comfy_exec_s = x \<rparr>)))))))"

subsection \<open>The run as the specification tells it\<close>

text \<open>
  The times the specification names, read off the iterations: \<open>t_execStart\<close> is the clock
  at the first event of the tracked execution that names a node, if one comes before the
  completion; \<open>t_execDone\<close> is the clock at the first event of the tracked execution
  without a node.
\<close>

fun exec_start_seen :: "json \<Rightarrow> tick list \<Rightarrow> real option" where
  "exec_start_seen prompt_id [] = None"
| "exec_start_seen prompt_id (tk # rest) =
     (case event_of prompt_id tk of
        NodeStarted \<Rightarrow> Some (stamp tk)
      | Finished \<Rightarrow> None
      | _ \<Rightarrow> exec_start_seen prompt_id rest)"

fun exec_done_seen :: "json \<Rightarrow> tick list \<Rightarrow> real option" where
  "exec_done_seen prompt_id [] = None"
| "exec_done_seen prompt_id (tk # rest) =
     (case event_of prompt_id tk of
        Finished \<Rightarrow> Some (stamp tk)
      | _ \<Rightarrow> exec_done_seen prompt_id rest)"

definition tracked_id :: "environment \<Rightarrow> json option" where
  "tracked_id env =
     (case post_result env of
        Inr res \<Rightarrow> (case py_subscript res ''prompt_id'' of Inr p \<Rightarrow> Some p | Inl e \<Rightarrow> None)
      | Inl e \<Rightarrow> None)"

text \<open>An iteration that ends the loop other than by the deadline.\<close>

definition terminal :: "json \<Rightarrow> tick \<Rightarrow> bool" where
  "terminal prompt_id tk =
     (frame tk = WsFailure
      \<or> (case event_of prompt_id tk of Ignore \<Rightarrow> False | NodeStarted \<Rightarrow> False | _ \<Rightarrow> True))"

text \<open>
  The timeout as the specification words it: no completion or execution error of the
  tracked execution arrives within the run timeout, counted from the submission.
\<close>

definition spec_terminal_event :: "json \<Rightarrow> tick \<Rightarrow> bool" where
  "spec_terminal_event prompt_id tk =
     (case event_of prompt_id tk of Finished \<Rightarrow> True | Failed err \<Rightarrow> True | _ \<Rightarrow> False)"

definition spec_timeout :: "real \<Rightarrow> json \<Rightarrow> environment \<Rightarrow> bool" where
  "spec_timeout run_timeout prompt_id env =
     (\<not> list_ex (\<lambda>tk. spec_terminal_event prompt_id tk \<and> stamp tk - queued_ts env \<le> run_timeout)
          (ticks env))"

subsection \<open>Concrete runs\<close>

definition executing_event :: "json \<Rightarrow> json \<Rightarrow> json" where
  "executing_event prompt_id node =
     JObj [(''type'', JStr ''executing''),
           (''data'', JObj [(''node'', node), (''prompt_id'', prompt_id)])]"

definition execution_error_event :: "json \<Rightarrow> json \<Rightarrow> json" where
  "execution_error_event prompt_id msg =
     JObj [(''type'', JStr ''execution_error''),
           (''data'', JObj [(''prompt_id'', prompt_id), (''exception_message'', msg)])]"

definition example_env :: "tick list \<Rightarrow> environment" where
  "example_env tks =
     \<lparr> start_ts = 100, connect_error = None,
       post_result = Inr (JObj [(''prompt_id'', JStr ''p1'')]),
       queued_ts = 110, ticks = tks, resolve = Inr [], final_ts = 1000 \<rparr>"

text \<open>Scenario D: a preview frame, a node starts at 112, the graph is done at 120.\<close>

definition run_ticks :: "tick list" where
  "run_ticks =
     [\<lparr>now = 111, frame = Binary, stamp = 111\<rparr>,
      \<lparr>now = 111, frame = Text (Some (executing_event (JStr ''p1'') (JStr ''3''))), stamp = 112\<rparr>,
      \<lparr>now = 113, frame = WsTimeout, stamp = 113\<rparr>,
      \<lparr>now = 119, frame = Text (Some (executing_event (JStr ''p1'') JNull)), stamp = 120\<rparr>]"

text \<open>Scenario E, with the message \<open>OOM\<close> and with an empty message.\<close>

definition error_ticks :: "json \<Rightarrow> tick list" where
  "error_ticks msg =
     [\<lparr>now = 111, frame = Text (Some (executing_event (JStr ''p1'') (JStr ''3''))), stamp = 112\<rparr>,
      \<lparr>now = 113, frame = Text (Some (execution_error_event (JStr ''p1'') msg)), stamp = 114\<rparr>]"

text \<open>
  Connecting and submitting took 10 seconds; the completion arrives 295 seconds after
  the submission, 305 seconds after the call began, with a run timeout of 300.
\<close>

definition late_ticks :: "tick list" where
  "late_ticks =
     [\<lparr>now = 405, frame = Text (Some (executing_event (JStr ''p1'') JNull)), stamp = 405\<rparr>]"

section \<open>Properties of the controller\<close>

subsection \<open>The pending counters stay positive\<close>

lemma pending_positive_ensure_workers [simp]:
  "pending_positive (ensure_workers s alias) = pending_positive s"
  by (simp add: ensure_workers_def pending_positive_def split: option.splits list.splits)

lemma pending_positive_register_job [simp]:
  "pending_positive (register_job s r) = pending_positive s"
  by (simp add: register_job_def pending_positive_def)

lemma pending_positive_queue_put:
  "queue_put s alias item = Inr s' \<Longrightarrow> pending_positive s' = pending_positive s"
  by (auto simp: queue_put_def pending_positive_def split: option.splits)

lemma pending_positive_set_worker [simp]:
  "pending_positive (set_worker s alias i w) = pending_positive s"
  by (simp add: set_worker_def pending_positive_def split: option.splits)

lemma pending_positive_inc:
  "pending_positive s \<Longrightarrow> pending_positive (inc_pending s uid)"
  by (fastforce simp: pending_positive_def inc_pending_def pending_count_by_user_def split: option.splits)

lemma pending_positive_dec:
  "pending_positive s \<Longrightarrow> pending_positive (dec_pending s uid)"
  by (auto simp: pending_positive_def dec_pending_def pending_count_by_user_def Let_def split: option.splits)

lemma pending_positive_inc_job:
  "pending_positive s \<Longrightarrow> pending_positive (inc_pending_job s r)"
  by (simp add: inc_pending_job_def pending_positive_inc)

lemma pending_positive_dec_job:
  "pending_positive s \<Longrightarrow> pending_positive (dec_pending_job s r)"
  by (simp add: dec_pending_job_def pending_positive_dec)

lemma pending_positive_enqueue:
  assumes "pending_positive s" and "enqueue s alias r = Inr s'"
  shows "pending_positive s'"
proof -
  from assms(2) have "queue_put (inc_pending_job (register_job (ensure_workers s alias) r) r) alias (Some r) = Inr s'"
    by (simp add: enqueue_def split: if_splits)
  from pending_positive_queue_put[OF this] assms(1) show ?thesis
    by (simp add: pending_positive_inc_job)
qed

lemma pending_positive_enqueue_limited:
  assumes "pending_positive s" and "enqueue_limited s alias r l = Inr (b, s')"
  shows "pending_positive s'"
proof -
  from assms(2) consider "s' = s" | "s' = ensure_workers s alias"
    | "queue_put (inc_pending_job (register_job (ensure_workers s alias) r) r) alias (Some r) = Inr s'"
    by (auto simp: enqueue_limited_def Let_def split: if_splits sum.splits)
  then show ?thesis
  proof cases
    case 3
    from pending_positive_queue_put[OF this] assms(1) show ?thesis
      by (simp add: pending_positive_inc_job)
  qed (use assms(1) in simp_all)
qed

lemma pending_positive_enqueue_reserved:
  assumes "pending_positive s" and "enqueue_reserved s alias r b0 = Inr (b, s')"
  shows "pending_positive s'"
proof -
  let ?s1 = "register_job (ensure_workers s alias) r"
  from assms(2) consider "s' = s"
    | "queue_put (inc_pending ?s1 (user_id (jobs ?s1 r))) alias (Some r) = Inr s'"
    | "queue_put ?s1 alias (Some r) = Inr s'"
    by (auto simp: enqueue_reserved_def Let_def split: if_splits sum.splits)
  then show ?thesis
  proof cases
    case 1
    then show ?thesis using assms(1) by simp
  next
    case 2
    from pending_positive_queue_put[OF this] assms(1) show ?thesis
      by (simp add: pending_positive_inc)
  next
    case 3
    from pending_positive_queue_put[OF this] assms(1) show ?thesis by simp
  qed
qed

lemma pending_positive_reserve:
  "pending_positive s \<Longrightarrow> pending_positive (snd (reserve_user_slot s uid l))"
  by (simp add: reserve_user_slot_def pending_positive_inc)

lemma pending_positive_release:
  "pending_positive s \<Longrightarrow> pending_positive (release_user_slot s uid)"
  by (simp add: release_user_slot_def pending_positive_dec)

lemma pending_positive_jobs_update [simp]:
  "pending_positive (s\<lparr>jobs := j\<rparr>) = pending_positive s"
  by (simp add: pending_positive_def)

lemma pending_positive_cancel:
  "pending_positive s \<Longrightarrow> pending_positive (snd (cancel_job s mid b))"
  by (simp add: cancel_job_def pending_positive_dec_job split: option.splits)

lemma pending_positive_worker_start:
  "pending_positive s \<Longrightarrow> pending_positive (worker_start s alias r)"
proof -
  assume a: "pending_positive s"
  have "pending_positive (s\<lparr>global_sema := global_sema s - 1\<rparr>)"
    using a by (simp add: pending_positive_def)
  then have "pending_positive (dec_pending_job (s\<lparr>global_sema := global_sema s - 1\<rparr>) r)"
    by (rule pending_positive_dec_job)
  then show ?thesis
    by (simp add: worker_start_def Let_def pending_positive_def)
qed

lemma pending_positive_worker_finish:
  "pending_positive s \<Longrightarrow> pending_positive (worker_finish s alias r)"
  by (simp add: worker_finish_def pending_positive_def)

lemma pending_positive_worker_take:
  "pending_positive s \<Longrightarrow> pending_positive (snd (worker_take s alias item))"
proof -
  assume a: "pending_positive s"
  have "\<And>m. pending_positive (s\<lparr>registry := m\<rparr>)"
    using a by (simp add: pending_positive_def)
  then show ?thesis using a
    by (simp add: worker_take_def pending_positive_worker_start split: option.splits)
qed

lemma pending_positive_worker_step:
  assumes "pending_positive s"
  shows "pending_positive (worker_step s alias i)"
proof -
  have q: "\<And>m. pending_positive (s\<lparr>queues := m\<rparr>)"
    using assms by (simp add: pending_positive_def)
  have t: "\<And>m item. pending_positive (snd (worker_take (s\<lparr>queues := m\<rparr>) alias item))"
    by (rule pending_positive_worker_take) (rule q)
  show ?thesis
    using assms t
    by (simp add: worker_step_def pending_positive_worker_start pending_positive_worker_finish
        split_beta split: option.splits worker.splits list.splits)
qed

lemma pending_positive_exec:
  assumes "pending_positive s"
  shows "pending_positive (exec s a)"
proof (cases a)
  case SetProcessor
  then show ?thesis using assms by (simp add: exec_def set_processor_def pending_positive_def)
next
  case (Enqueue tp r)
  then show ?thesis using assms pending_positive_enqueue[of s tp r]
    by (simp add: exec_def split: sum.splits)
next
  case (EnqueueLimited tp r l)
  then show ?thesis using assms pending_positive_enqueue_limited[of s tp r l]
    by (auto simp add: exec_def split: sum.splits)
next
  case (EnqueueReserved tp r b)
  then show ?thesis using assms pending_positive_enqueue_reserved[of s tp r b]
    by (auto simp add: exec_def split: sum.splits)
next
  case (ReserveUserSlot uid l)
  then show ?thesis using assms by (simp add: exec_def pending_positive_reserve)
next
  case (ReleaseUserSlot uid)
  then show ?thesis using assms by (simp add: exec_def pending_positive_release)
next
  case (CancelJob mid b)
  then show ?thesis using assms by (simp add: exec_def pending_positive_cancel)
next
  case (WillQueue tp)
  then show ?thesis using assms
    by (auto simp add: exec_def will_queue_def Let_def split: sum.splits option.splits)
next
  case (WorkerStep tp i)
  then show ?thesis using assms by (simp add: exec_def pending_positive_worker_step)
next
  case ShutdownSignal
  then show ?thesis using assms by (simp add: exec_def shutdown_signal_def pending_positive_def)
next
  case ShutdownClear
  then show ?thesis by (simp add: exec_def shutdown_clear_def pending_positive_def)
qed

lemma pending_positive_run:
  "pending_positive s \<Longrightarrow> pending_positive (run s ops)"
  unfolding run_def by (induction ops arbitrary: s) (simp_all add: pending_positive_exec)

subsection \<open>Worker pools keep the configured size\<close>

lemma pools_sized_ensure_workers:
  "pools_sized s ptl \<Longrightarrow> pools_sized (ensure_workers s tp) ptl"
  by (auto simp: pools_sized_def ensure_workers_def split: option.splits list.splits)

lemma pools_sized_cong:
  "workers s' = workers s \<Longrightarrow> per_topic_limit s' = per_topic_limit s \<Longrightarrow>
   pools_sized s' ptl = pools_sized s ptl"
  by (simp add: pools_sized_def)

lemma workers_queue_put:
  "queue_put s tp item = Inr s' \<Longrightarrow> workers s' = workers s \<and> per_topic_limit s' = per_topic_limit s"
  by (auto simp: queue_put_def split: option.splits)

lemma workers_inc_pending [simp]:
  "workers (inc_pending s uid) = workers s" "per_topic_limit (inc_pending s uid) = per_topic_limit s"
  by (simp_all add: inc_pending_def)

lemma workers_dec_pending [simp]:
  "workers (dec_pending s uid) = workers s" "per_topic_limit (dec_pending s uid) = per_topic_limit s"
  by (simp_all add: dec_pending_def Let_def)

lemma workers_inc_pending_job [simp]:
  "workers (inc_pending_job s r) = workers s" "per_topic_limit (inc_pending_job s r) = per_topic_limit s"
  by (simp_all add: inc_pending_job_def)

lemma workers_dec_pending_job [simp]:
  "workers (dec_pending_job s r) = workers s" "per_topic_limit (dec_pending_job s r) = per_topic_limit s"
  by (simp_all add: dec_pending_job_def)

lemma workers_register_job [simp]:
  "workers (register_job s r) = workers s" "per_topic_limit (register_job s r) = per_topic_limit s"
  by (simp_all add: register_job_def)

lemma workers_worker_start [simp]:
  "workers (worker_start s tp r) = workers s" "per_topic_limit (worker_start s tp r) = per_topic_limit s"
  by (simp_all add: worker_start_def Let_def)

lemma workers_worker_finish [simp]:
  "workers (worker_finish s tp r) = workers s" "per_topic_limit (worker_finish s tp r) = per_topic_limit s"
  by (simp_all add: worker_finish_def)

lemma workers_worker_take [simp]:
  "workers (snd (worker_take s tp item)) = workers s"
  "per_topic_limit (snd (worker_take s tp item)) = per_topic_limit s"
  by (simp_all add: worker_take_def split: option.splits)

lemma pools_sized_set_worker:
  "pools_sized s ptl \<Longrightarrow> pools_sized (set_worker s tp i w) ptl"
  by (auto simp: pools_sized_def set_worker_def split: option.splits if_splits)

lemma pools_sized_enqueue:
  assumes "pools_sized s ptl" and "enqueue s tp r = Inr s'"
  shows "pools_sized s' ptl"
proof -
  from assms(2) have "queue_put (inc_pending_job (register_job (ensure_workers s tp) r) r) tp (Some r) = Inr s'"
    by (simp add: enqueue_def split: if_splits)
  from workers_queue_put[OF this] pools_sized_ensure_workers[OF assms(1), of tp] show ?thesis
    by (simp add: pools_sized_def)
qed

lemma pools_sized_enqueue_limited:
  assumes "pools_sized s ptl" and "enqueue_limited s tp r l = Inr (b, s')"
  shows "pools_sized s' ptl"
proof -
  from assms(2) consider "s' = s" | "s' = ensure_workers s tp"
    | "queue_put (inc_pending_job (register_job (ensure_workers s tp) r) r) tp (Some r) = Inr s'"
    by (auto simp: enqueue_limited_def Let_def split: if_splits sum.splits)
  then show ?thesis
  proof cases
    case 3
    from workers_queue_put[OF this] pools_sized_ensure_workers[OF assms(1), of tp] show ?thesis
      by (simp add: pools_sized_def)
  qed (use assms(1) pools_sized_ensure_workers in simp_all)
qed

lemma pools_sized_enqueue_reserved:
  assumes "pools_sized s ptl" and "enqueue_reserved s tp r b0 = Inr (b, s')"
  shows "pools_sized s' ptl"
proof -
  let ?s1 = "register_job (ensure_workers s tp) r"
  from assms(2) consider "s' = s"
    | "queue_put (inc_pending ?s1 (user_id (jobs ?s1 r))) tp (Some r) = Inr s'"
    | "queue_put ?s1 tp (Some r) = Inr s'"
    by (auto simp: enqueue_reserved_def Let_def split: if_splits sum.splits)
  then show ?thesis
  proof cases
    case 1
    then show ?thesis using assms(1) by simp
  next
    case 2
    from workers_queue_put[OF this] pools_sized_ensure_workers[OF assms(1), of tp] show ?thesis
      by (simp add: pools_sized_def)
  next
    case 3
    from workers_queue_put[OF this] pools_sized_ensure_workers[OF assms(1), of tp] show ?thesis
      by (simp add: pools_sized_def)
  qed
qed

lemma pools_sized_worker_step:
  assumes "pools_sized s ptl"
  shows "pools_sized (worker_step s tp i) ptl"
proof -
  have c: "\<And>s'. workers s' = workers s \<Longrightarrow> per_topic_limit s' = per_topic_limit s \<Longrightarrow>
            pools_sized (set_worker s' tp i w) ptl" for w
    using assms pools_sized_cong pools_sized_set_worker by blast
  show ?thesis
    using assms
    by (auto simp add: worker_step_def split_beta intro!: c
        split: option.splits worker.splits list.splits)
qed

lemma pools_sized_exec:
  assumes "pools_sized s ptl"
  shows "pools_sized (exec s a) ptl"
proof (cases a)
  case SetProcessor
  then show ?thesis using assms by (simp add: exec_def set_processor_def pools_sized_def)
next
  case (Enqueue tp r)
  then show ?thesis using assms pools_sized_enqueue[of s ptl tp r]
    by (simp add: exec_def split: sum.splits)
next
  case (EnqueueLimited tp r l)
  then show ?thesis using assms pools_sized_enqueue_limited[of s ptl tp r l]
    by (auto simp add: exec_def split: sum.splits)
next
  case (EnqueueReserved tp r b)
  then show ?thesis using assms pools_sized_enqueue_reserved[of s ptl tp r b]
    by (auto simp add: exec_def split: sum.splits)
next
  case (ReserveUserSlot uid l)
  then show ?thesis using assms by (simp add: exec_def reserve_user_slot_def pools_sized_def)
next
  case (ReleaseUserSlot uid)
  then show ?thesis using assms by (simp add: exec_def release_user_slot_def pools_sized_def)
next
  case (CancelJob mid b)
  then show ?thesis using assms
    by (simp add: exec_def cancel_job_def pools_sized_def split: option.splits)
next
  case (WillQueue tp)
  then show ?thesis using assms pools_sized_ensure_workers[of s ptl tp]
    by (auto simp add: exec_def will_queue_def Let_def split: sum.splits option.splits)
next
  case (WorkerStep tp i)
  then show ?thesis using assms by (simp add: exec_def pools_sized_worker_step)
next
  case ShutdownSignal
  then show ?thesis using assms by (simp add: exec_def shutdown_signal_def pools_sized_def)
next
  case ShutdownClear
  then show ?thesis using assms by (simp add: exec_def shutdown_clear_def pools_sized_def)
qed

lemma pools_sized_run:
  "pools_sized s ptl \<Longrightarrow> pools_sized (run s ops) ptl"
  unfolding run_def by (induction ops arbitrary: s) (simp_all add: pools_sized_exec)

lemma pools_sized_init:
  "init objs mw ptl = Inr s0 \<Longrightarrow> pools_sized s0 ptl"
  by (auto simp: init_def pools_sized_def split: if_splits)

lemma ensure_workers_pool:
  "pools_sized s ptl \<Longrightarrow>
   \<exists>ws. workers (ensure_workers s tp) tp = Some ws \<and> int (length ws) = max 1 ptl"
  by (fastforce simp: pools_sized_def ensure_workers_def split: option.splits list.splits)

subsection \<open>Cancellation\<close>

lemma cancel_job_accepts_iff:
  "fst (cancel_job s mid b) =
     (\<exists>r. registry s mid = Some r \<and> \<not> started (jobs s r) \<and> \<not> canceled (jobs s r))"
  by (simp add: cancel_job_def split: option.splits)

lemma jobs_dec_pending [simp]: "jobs (dec_pending s uid) = jobs s"
  by (simp add: dec_pending_def Let_def)

lemma registry_dec_pending [simp]: "registry (dec_pending s uid) = registry s"
  by (simp add: dec_pending_def Let_def)

lemma jobs_dec_pending_job [simp]: "jobs (dec_pending_job s r) = jobs s"
  by (simp add: dec_pending_job_def)

lemma registry_dec_pending_job [simp]: "registry (dec_pending_job s r) = registry s"
  by (simp add: dec_pending_job_def)

lemma pending_dec_pending_jobs_update [simp]:
  "pending_by_user (dec_pending (s\<lparr>jobs := j\<rparr>) uid) = pending_by_user (dec_pending s uid)"
  by (simp add: dec_pending_def Let_def pending_count_by_user_def)

lemma pending_dec_pending_job:
  "pending_by_user (dec_pending_job s r) = pending_by_user (dec_pending s (user_id (jobs s r)))"
  by (simp add: dec_pending_job_def dec_pending_def)

lemma cancel_job_effect:
  assumes "cancel_job s mid b = (True, s')" and "registry s mid = Some r"
  shows "canceled (jobs s' r)" and "canceled_by_admin (jobs s' r) = b"
    and "started (jobs s' r) = started (jobs s r)"
    and "registry s' = registry s"
    and "pending_by_user s' = pending_by_user (dec_pending s (user_id (jobs s r)))"
    and "\<And>r'. r' \<noteq> r \<Longrightarrow> jobs s' r' = jobs s r'"
  using assms
  by (auto simp: cancel_job_def pending_dec_pending_job split: option.splits if_splits)

lemma cancel_job_rejected_unchanged:
  "fst (cancel_job s mid b) = False \<Longrightarrow> snd (cancel_job s mid b) = s"
  by (simp add: cancel_job_def split: option.splits if_splits)

lemma cancel_job_twice:
  "fst (cancel_job (snd (cancel_job s mid b)) mid b') = False"
  by (auto simp: cancel_job_def split: option.splits)

lemma dec_pending_count:
  "0 < uid \<Longrightarrow> pending_count_by_user (dec_pending s uid) uid =
     (if pending_count_by_user s uid \<le> 1 then 0 else pending_count_by_user s uid - 1)"
  by (simp add: dec_pending_def pending_count_by_user_def Let_def)

lemma inc_pending_count:
  "0 < uid \<Longrightarrow> pending_count_by_user (inc_pending s uid) uid = pending_count_by_user s uid + 1"
  by (simp add: inc_pending_def pending_count_by_user_def)

subsection \<open>Job flags are never reset\<close>

lemma job_grows_refl [simp]: "job_grows j j"
  by (simp add: job_grows_def)

lemma job_grows_trans: "job_grows j j' \<Longrightarrow> job_grows j' j'' \<Longrightarrow> job_grows j j''"
  by (simp add: job_grows_def)

lemma jobs_ensure_workers [simp]: "jobs (ensure_workers s tp) = jobs s"
  by (simp add: ensure_workers_def split: option.splits list.splits)

lemma jobs_register_job [simp]: "jobs (register_job s r) = jobs s"
  by (simp add: register_job_def)

lemma jobs_inc_pending [simp]: "jobs (inc_pending s uid) = jobs s"
  by (simp add: inc_pending_def)

lemma jobs_inc_pending_job [simp]: "jobs (inc_pending_job s r) = jobs s"
  by (simp add: inc_pending_job_def)

lemma jobs_queue_put: "queue_put s tp item = Inr s' \<Longrightarrow> jobs s' = jobs s"
  by (auto simp: queue_put_def split: option.splits)

lemma jobs_set_worker [simp]: "jobs (set_worker s tp i w) = jobs s"
  by (simp add: set_worker_def split: option.splits)

lemma jobs_worker_finish [simp]: "jobs (worker_finish s tp r) = jobs s"
  by (simp add: worker_finish_def)

lemma jobs_enqueue: "enqueue s tp r = Inr s' \<Longrightarrow> jobs s' = jobs s"
  by (auto simp: enqueue_def split: if_splits dest!: jobs_queue_put)

lemma jobs_enqueue_limited: "enqueue_limited s tp r l = Inr (b, s') \<Longrightarrow> jobs s' = jobs s"
  by (auto simp: enqueue_limited_def Let_def split: if_splits sum.splits dest!: jobs_queue_put)

lemma jobs_enqueue_reserved: "enqueue_reserved s tp r b0 = Inr (b, s') \<Longrightarrow> jobs s' = jobs s"
  by (auto simp: enqueue_reserved_def Let_def split: if_splits sum.splits dest!: jobs_queue_put)

lemma job_grows_worker_start: "job_grows (jobs s r') (jobs (worker_start s tp r) r')"
  by (simp add: worker_start_def Let_def job_grows_def)

lemma job_grows_worker_take: "job_grows (jobs s r') (jobs (snd (worker_take s tp item)) r')"
  by (simp add: worker_take_def job_grows_worker_start split: option.splits)

lemma job_grows_cancel_job: "job_grows (jobs s r') (jobs (snd (cancel_job s mid b)) r')"
  by (simp add: cancel_job_def job_grows_def split: option.splits)

lemma job_grows_worker_step: "job_grows (jobs s r') (jobs (worker_step s tp i) r')"
proof -
  have "job_grows (jobs s r') (jobs (snd (worker_take (s\<lparr>queues := m\<rparr>) tp item)) r')" for m item
    using job_grows_worker_take[of "s\<lparr>queues := m\<rparr>" r' tp item] by simp
  then show ?thesis
    by (simp add: worker_step_def split_beta job_grows_worker_start
        split: option.splits worker.splits list.splits)
qed

lemma job_grows_exec: "job_grows (jobs s r) (jobs (exec s a) r)"
proof (cases a)
  case (Enqueue tp r0)
  then show ?thesis using jobs_enqueue[of s tp r0]
    by (simp add: exec_def split: sum.splits)
next
  case (EnqueueLimited tp r0 l)
  then show ?thesis using jobs_enqueue_limited[of s tp r0 l]
    by (auto simp add: exec_def split: sum.splits)
next
  case (EnqueueReserved tp r0 b)
  then show ?thesis using jobs_enqueue_reserved[of s tp r0 b]
    by (auto simp add: exec_def split: sum.splits)
next
  case (WillQueue tp)
  then show ?thesis
    by (auto simp add: exec_def will_queue_def Let_def split: sum.splits option.splits)
qed (simp_all add: exec_def set_processor_def reserve_user_slot_def release_user_slot_def
      job_grows_cancel_job job_grows_worker_step shutdown_signal_def shutdown_clear_def)

lemma job_grows_run: "job_grows (jobs s r) (jobs (run s ops) r)"
  unfolding run_def
proof (induction ops arbitrary: s)
  case Nil
  show ?case by simp
next
  case (Cons a ops)
  show ?case
    using job_grows_trans[OF job_grows_exec[of s r a] Cons.IH[of "exec s a"]] by simp
qed

lemma cancel_job_rejects_started:
  "registry s mid = Some r \<Longrightarrow> started (jobs s r) \<Longrightarrow> fst (cancel_job s mid b) = False"
  by (simp add: cancel_job_def)

lemma cancel_job_rejects_canceled:
  "registry s mid = Some r \<Longrightarrow> canceled (jobs s r) \<Longrightarrow> fst (cancel_job s mid b) = False"
  by (simp add: cancel_job_def)

lemma started_worker_start: "started (jobs (worker_start s tp r) r)"
  by (simp add: worker_start_def Let_def)

subsection \<open>Every pool has its queue\<close>

lemma queues_ensure_workers: "queues_cover s \<Longrightarrow> queues (ensure_workers s tp) tp \<noteq> None"
  by (auto simp: queues_cover_def ensure_workers_def split: option.splits list.splits)

lemma queues_cover_ensure_workers: "queues_cover s \<Longrightarrow> queues_cover (ensure_workers s tp)"
  by (auto simp: queues_cover_def ensure_workers_def split: option.splits list.splits)

lemma queues_register_job [simp]: "queues (register_job s r) = queues s"
  by (simp add: register_job_def)

lemma queues_inc_pending [simp]: "queues (inc_pending s uid) = queues s"
  by (simp add: inc_pending_def)

lemma queues_inc_pending_job [simp]: "queues (inc_pending_job s r) = queues s"
  by (simp add: inc_pending_job_def)

lemma queues_dec_pending [simp]: "queues (dec_pending s uid) = queues s"
  by (simp add: dec_pending_def Let_def)

lemma queues_dec_pending_job [simp]: "queues (dec_pending_job s r) = queues s"
  by (simp add: dec_pending_job_def)

lemma queue_put_succeeds: "queues s tp \<noteq> None \<Longrightarrow> \<exists>s'. queue_put s tp item = Inr s'"
  by (auto simp: queue_put_def)

lemma queues_cover_queue_put:
  "queue_put s tp item = Inr s' \<Longrightarrow> queues_cover s \<Longrightarrow> queues_cover s'"
  by (auto simp: queue_put_def queues_cover_def split: option.splits)

text \<open>In a state where every pool has a queue, no admission operation raises \<open>KeyError\<close>.\<close>

lemma enqueue_no_key_error:
  "queues_cover s \<Longrightarrow> enqueue s tp r = Inl e \<Longrightarrow> e = RuntimeError"
  using queue_put_succeeds[of "inc_pending_job (register_job (ensure_workers s tp) r) r" tp "Some r"]
    queues_ensure_workers[of s tp]
  by (auto simp: enqueue_def split: if_splits)

lemma enqueue_limited_total:
  "queues_cover s \<Longrightarrow> \<exists>b s'. enqueue_limited s tp r l = Inr (b, s')"
  using queue_put_succeeds[of "inc_pending_job (register_job (ensure_workers s tp) r) r" tp "Some r"]
    queues_ensure_workers[of s tp]
  by (auto simp: enqueue_limited_def Let_def split: if_splits sum.splits)

lemma enqueue_reserved_total:
  "queues_cover s \<Longrightarrow> \<exists>b s'. enqueue_reserved s tp r reserved = Inr (b, s')"
  using queue_put_succeeds[of "inc_pending (register_job (ensure_workers s tp) r)
                                  (user_id (jobs (register_job (ensure_workers s tp) r) r))" tp "Some r"]
    queue_put_succeeds[of "register_job (ensure_workers s tp) r" tp "Some r"]
    queues_ensure_workers[of s tp]
  by (auto simp: enqueue_reserved_def Let_def split: if_splits sum.splits)

lemma will_queue_total:
  "queues_cover s \<Longrightarrow> \<exists>b s'. will_queue s tp = Inr (b, s')"
  using queues_ensure_workers[of s tp]
  by (auto simp: will_queue_def Let_def split: option.splits)

lemma queues_cover_enqueue:
  assumes "queues_cover s" and "enqueue s tp r = Inr s'"
  shows "queues_cover s'"
proof -
  from assms(2) have p: "queue_put (inc_pending_job (register_job (ensure_workers s tp) r) r) tp (Some r) = Inr s'"
    by (simp add: enqueue_def split: if_splits)
  have "queues_cover (inc_pending_job (register_job (ensure_workers s tp) r) r)"
    using queues_cover_ensure_workers[OF assms(1), of tp] by (simp add: queues_cover_def)
  then show ?thesis by (rule queues_cover_queue_put[OF p])
qed

lemma queues_cover_enqueue_limited:
  assumes "queues_cover s" and "enqueue_limited s tp r l = Inr (b, s')"
  shows "queues_cover s'"
proof -
  from assms(2) consider "s' = s" | "s' = ensure_workers s tp"
    | "queue_put (inc_pending_job (register_job (ensure_workers s tp) r) r) tp (Some r) = Inr s'"
    by (auto simp: enqueue_limited_def Let_def split: if_splits sum.splits)
  then show ?thesis
  proof cases
    case 3
    have "queues_cover (inc_pending_job (register_job (ensure_workers s tp) r) r)"
      using queues_cover_ensure_workers[OF assms(1), of tp] by (simp add: queues_cover_def)
    then show ?thesis by (rule queues_cover_queue_put[OF 3])
  qed (use assms(1) queues_cover_ensure_workers in simp_all)
qed

lemma queues_cover_enqueue_reserved:
  assumes "queues_cover s" and "enqueue_reserved s tp r b0 = Inr (b, s')"
  shows "queues_cover s'"
proof -
  let ?s1 = "register_job (ensure_workers s tp) r"
  have c1: "queues_cover ?s1"
    using queues_cover_ensure_workers[OF assms(1), of tp] by (simp add: queues_cover_def)
  then have c2: "queues_cover (inc_pending ?s1 (user_id (jobs ?s1 r)))"
    by (simp add: queues_cover_def)
  from assms(2) consider "s' = s"
    | "queue_put (inc_pending ?s1 (user_id (jobs ?s1 r))) tp (Some r) = Inr s'"
    | "queue_put ?s1 tp (Some r) = Inr s'"
    by (auto simp: enqueue_reserved_def Let_def split: if_splits sum.splits)
  then show ?thesis
  proof cases
    case 1
    then show ?thesis using assms(1) by simp
  next
    case 2
    show ?thesis by (rule queues_cover_queue_put[OF 2 c2])
  next
    case 3
    show ?thesis by (rule queues_cover_queue_put[OF 3 c1])
  qed
qed

lemma queues_worker_start [simp]: "queues (worker_start s tp r) = queues s"
  by (simp add: worker_start_def Let_def)

lemma queues_worker_finish [simp]: "queues (worker_finish s tp r) = queues s"
  by (simp add: worker_finish_def)

lemma queues_worker_take [simp]: "queues (snd (worker_take s tp item)) = queues s"
  by (simp add: worker_take_def split: option.splits)

lemma queues_cover_set_worker: "queues_cover s \<Longrightarrow> queues_cover (set_worker s tp i w)"
  by (auto simp: queues_cover_def set_worker_def split: option.splits if_splits)

lemma queues_cover_worker_step:
  assumes "queues_cover s"
  shows "queues_cover (worker_step s tp i)"
proof -
  have a: "queues_cover (s\<lparr>queues := (queues s)(tp \<mapsto> q)\<rparr>)" for q
    using assms by (auto simp: queues_cover_def)
  have b: "queues_cover (snd (worker_take (s\<lparr>queues := (queues s)(tp \<mapsto> q)\<rparr>) tp item))" for q item
    using a[of q] by (simp add: queues_cover_def)
  have c: "queues_cover (worker_start s tp r)" "queues_cover (worker_finish s tp r)" for r
    using assms by (simp_all add: queues_cover_def)
  show ?thesis
    using assms b c
    by (simp add: worker_step_def split_beta queues_cover_set_worker
        split: option.splits worker.splits list.splits)
qed

lemma queues_cover_exec:
  assumes "queues_cover s"
  shows "queues_cover (exec s a)"
proof (cases a)
  case SetProcessor
  then show ?thesis using assms by (simp add: exec_def set_processor_def queues_cover_def)
next
  case (Enqueue tp r)
  then show ?thesis using assms queues_cover_enqueue[of s tp r]
    by (simp add: exec_def split: sum.splits)
next
  case (EnqueueLimited tp r l)
  then show ?thesis using assms queues_cover_enqueue_limited[of s tp r l]
    by (auto simp add: exec_def split: sum.splits)
next
  case (EnqueueReserved tp r b)
  then show ?thesis using assms queues_cover_enqueue_reserved[of s tp r b]
    by (auto simp add: exec_def split: sum.splits)
next
  case (ReserveUserSlot uid l)
  then show ?thesis using assms by (simp add: exec_def reserve_user_slot_def queues_cover_def)
next
  case (ReleaseUserSlot uid)
  then show ?thesis using assms by (simp add: exec_def release_user_slot_def queues_cover_def)
next
  case (CancelJob mid b)
  then show ?thesis using assms
    by (simp add: exec_def cancel_job_def queues_cover_def split: option.splits)
next
  case (WillQueue tp)
  then show ?thesis using assms queues_cover_ensure_workers[of s tp]
    by (auto simp add: exec_def will_queue_def Let_def split: sum.splits option.splits)
next
  case (WorkerStep tp i)
  then show ?thesis using assms by (simp add: exec_def queues_cover_worker_step)
next
  case ShutdownSignal
  then show ?thesis using assms
    by (auto simp add: exec_def shutdown_signal_def queues_cover_def split: option.splits)
next
  case ShutdownClear
  then show ?thesis by (simp add: exec_def shutdown_clear_def queues_cover_def)
qed

lemma queues_cover_run: "queues_cover s \<Longrightarrow> queues_cover (run s ops)"
  unfolding run_def by (induction ops arbitrary: s) (simp_all add: queues_cover_exec)

lemma queues_cover_init: "init objs mw ptl = Inr s0 \<Longrightarrow> queues_cover s0"
  by (auto simp: init_def queues_cover_def split: if_splits)

section \<open>Properties of the templating\<close>

subsection \<open>The seed\<close>

lemmas string_eval = rtype_of_def lower_def strip_def is_space_def char_lower_def
  startswith_def after_colon_def text_param_key_def

lemmas render_eval = prepare_workflow_def effective_params_def get_not_none_def randint_def
  apply_rules_def text_rule_def input_image_rule_def input_images_rule_def scalar_rule_def
  set_input_def unlink_and_remove_nodes_def unlink_node_def is_edge_to_def Let_def

lemma get_not_none_update [simp]:
  "get_not_none (AList.update k (JInt x) d) k = Some (JInt x)"
  by (simp add: get_not_none_def update_conv')

lemma effective_params_seeded:
  "get_not_none params ''seed'' \<noteq> None \<Longrightarrow> effective_params g params = (params, g)"
  by (auto simp: effective_params_def split: option.splits)

lemma effective_params_unseeded:
  "get_not_none params ''seed'' = None \<Longrightarrow>
   effective_params g params =
     (AList.update ''seed'' (JInt (fst (randint 0 (2 ^ 48 - 1) g))) params, (fst g, Suc (snd g)))"
  by (simp add: effective_params_def randint_def split_beta)

lemma randint_range:
  "lo \<le> hi \<Longrightarrow> lo \<le> fst (randint lo hi g) \<and> fst (randint lo hi g) \<le> hi"
proof -
  assume "lo \<le> hi"
  then have p: "0 < hi - lo + 1" by simp
  have "0 \<le> fst g (snd g) mod (hi - lo + 1)" using p by (rule pos_mod_sign)
  moreover have "fst g (snd g) mod (hi - lo + 1) < hi - lo + 1" using p by (rule pos_mod_bound)
  ultimately show ?thesis unfolding randint_def fst_conv by linarith
qed

subsection \<open>The first loop against the three text passes\<close>

lemma then_do_simps [simp]:
  "then_do (Inl e) f = Inl e" "then_do (Inr v) f = f v"
  by (simp_all add: then_do_def)

lemma then_do_Inr [simp]: "then_do x Inr = x"
  by (cases x) simp_all

lemma for_rules_then_do:
  "for_rules body (rule # rules) w = then_do (body rule w) (for_rules body rules)"
  by (simp add: then_do_def)

lemma text_pass_None:
  assumes "text_pass rule = None"
  shows "text_rule prompt eff rule w = Inr w" "spec_prompt_rule prompt rule w = Inr w"
    "spec_negative_prompt_rule eff rule w = Inr w" "spec_text_rule eff rule w = Inr w"
  using assms
  by (auto simp: text_pass_def text_rule_def spec_prompt_rule_def spec_negative_prompt_rule_def
      spec_text_rule_def Let_def split: if_splits option.splits)

lemma text_param_key_prompt:
  "rtype_of rule = ''prompt'' \<Longrightarrow> text_param_key rule = None"
  "rtype_of rule = ''negative_prompt'' \<Longrightarrow> text_param_key rule = None"
  "rtype_of rule = [] \<Longrightarrow> text_param_key rule = None"
  by (simp_all add: text_param_key_def startswith_def)

lemma text_pass_1:
  assumes "text_pass rule = Some 1"
  shows "text_rule prompt eff rule w = spec_prompt_rule prompt rule w"
    "spec_negative_prompt_rule eff rule w = Inr w" "spec_text_rule eff rule w = Inr w"
proof -
  from assms have r: "rtype_of rule = ''prompt''"
    by (auto simp: text_pass_def split: if_splits option.splits)
  show "text_rule prompt eff rule w = spec_prompt_rule prompt rule w"
    by (simp add: text_rule_def spec_prompt_rule_def r)
  show "spec_negative_prompt_rule eff rule w = Inr w"
    by (simp add: spec_negative_prompt_rule_def r)
  show "spec_text_rule eff rule w = Inr w"
    by (simp add: spec_text_rule_def text_param_key_prompt(1)[OF r])
qed

lemma text_pass_2:
  assumes "text_pass rule = Some 2"
  shows "text_rule prompt eff rule w = spec_negative_prompt_rule eff rule w"
    "spec_prompt_rule prompt rule w = Inr w" "spec_text_rule eff rule w = Inr w"
proof -
  from assms have r: "rtype_of rule = ''negative_prompt''"
    by (auto simp: text_pass_def split: if_splits option.splits)
  show "text_rule prompt eff rule w = spec_negative_prompt_rule eff rule w"
    by (simp add: text_rule_def spec_negative_prompt_rule_def r)
  show "spec_prompt_rule prompt rule w = Inr w"
    by (simp add: spec_prompt_rule_def r)
  show "spec_text_rule eff rule w = Inr w"
    by (simp add: spec_text_rule_def text_param_key_prompt(2)[OF r])
qed

lemma text_pass_3:
  assumes "text_pass rule = Some 3"
  shows "text_rule prompt eff rule w = spec_text_rule eff rule w"
    "spec_prompt_rule prompt rule w = Inr w" "spec_negative_prompt_rule eff rule w = Inr w"
proof -
  from assms have r: "rtype_of rule \<noteq> ''prompt''" "rtype_of rule \<noteq> ''negative_prompt''"
    and k: "text_param_key rule \<noteq> None"
    by (auto simp: text_pass_def split: if_splits option.splits)
  have e: "rtype_of rule \<noteq> []"
  proof
    assume "rtype_of rule = []"
    then have "text_param_key rule = None" by (rule text_param_key_prompt(3))
    with k show False by simp
  qed
  show "text_rule prompt eff rule w = spec_text_rule eff rule w"
    using r e by (simp add: text_rule_def spec_text_rule_def)
  show "spec_prompt_rule prompt rule w = Inr w"
    using r by (simp add: spec_prompt_rule_def)
  show "spec_negative_prompt_rule eff rule w = Inr w"
    using r by (simp add: spec_negative_prompt_rule_def)
qed

lemma text_pass_range: "text_pass rule = Some p \<Longrightarrow> p = 1 \<or> p = 2 \<or> p = 3"
  by (auto simp: text_pass_def split: if_splits option.splits)

lemma in_pass_order_mono: "in_pass_order n rules \<Longrightarrow> m \<le> n \<Longrightarrow> in_pass_order m rules"
  by (induction rules arbitrary: n m) (auto split: option.splits)

lemma pass_order_3:
  "in_pass_order 3 rules \<Longrightarrow>
     for_rules (spec_prompt_rule prompt) rules w = Inr w
   \<and> for_rules (spec_negative_prompt_rule eff) rules w = Inr w
   \<and> for_rules (text_rule prompt eff) rules w = for_rules (spec_text_rule eff) rules w"
proof (induction rules arbitrary: w)
  case Nil
  show ?case by simp
next
  case (Cons rule rules)
  show ?case
  proof (cases "text_pass rule")
    case None
    with Cons show ?thesis by (simp add: text_pass_None)
  next
    case (Some p)
    with Cons.prems text_pass_range[OF Some] have p: "p = 3" and o: "in_pass_order 3 rules"
      by auto
    from Some p have t: "text_pass rule = Some 3" by simp
    show ?thesis
      using Cons.IH[OF o] by (simp add: text_pass_3[OF t] split: sum.splits)
  qed
qed

lemma pass_order_2:
  "in_pass_order 2 rules \<Longrightarrow>
     for_rules (spec_prompt_rule prompt) rules w = Inr w
   \<and> for_rules (text_rule prompt eff) rules w
       = then_do (for_rules (spec_negative_prompt_rule eff) rules w)
                 (for_rules (spec_text_rule eff) rules)"
proof (induction rules arbitrary: w)
  case Nil
  show ?case by simp
next
  case (Cons rule rules)
  show ?case
  proof (cases "text_pass rule")
    case None
    with Cons show ?thesis by (simp add: text_pass_None)
  next
    case (Some p)
    with Cons.prems text_pass_range[OF Some] consider
      "text_pass rule = Some 2" "in_pass_order 2 rules" | "text_pass rule = Some 3" "in_pass_order 3 rules"
      by auto
    then show ?thesis
    proof cases
      case 1
      show ?thesis
        using Cons.IH[OF 1(2)] by (simp add: text_pass_2[OF 1(1)] split: sum.splits)
    next
      case 2
      show ?thesis
        using pass_order_3[OF 2(2), of prompt _ eff]
        by (simp add: text_pass_3[OF 2(1)] split: sum.splits)
    qed
  qed
qed

lemma pass_order_1:
  "in_pass_order 0 rules \<Longrightarrow>
     for_rules (text_rule prompt eff) rules w
       = then_do (for_rules (spec_prompt_rule prompt) rules w) (\<lambda>g1.
         then_do (for_rules (spec_negative_prompt_rule eff) rules g1)
                 (for_rules (spec_text_rule eff) rules))"
proof (induction rules arbitrary: w)
  case Nil
  show ?case by simp
next
  case (Cons rule rules)
  show ?case
  proof (cases "text_pass rule")
    case None
    with Cons show ?thesis by (simp add: text_pass_None)
  next
    case (Some p)
    with Cons.prems text_pass_range[OF Some] consider
      "text_pass rule = Some 1" "in_pass_order 1 rules"
      | "text_pass rule = Some 2" "in_pass_order 2 rules"
      | "text_pass rule = Some 3" "in_pass_order 3 rules"
      by auto
    then show ?thesis
    proof cases
      case 1
      from 1(2) have "in_pass_order 0 rules" by (rule in_pass_order_mono) simp
      from Cons.IH[OF this] show ?thesis
        by (simp add: text_pass_1[OF 1(1)] split: sum.splits)
    next
      case 2
      show ?thesis
        using pass_order_2[OF 2(2), of prompt _ eff]
        by (simp add: text_pass_2[OF 2(1)] split: sum.splits)
    next
      case 3
      show ?thesis
        using pass_order_3[OF 3(2), of prompt _ eff]
        by (simp add: text_pass_3[OF 3(1)] split: sum.splits)
    qed
  qed
qed

lemma apply_rules_in_pass_order:
  "in_pass_order 0 rules \<Longrightarrow>
   apply_rules template rules prompt eff = spec_render_passes template rules prompt eff"
  by (simp add: apply_rules_def spec_render_passes_def pass_order_1 then_do_def split: sum.splits)

subsection \<open>Writes, loops and what they preserve\<close>

lemma dangling_edges_Nil_iff:
  "dangling_edges R w = [] \<longleftrightarrow>
     (\<forall>n node. (n, node) \<in> set w \<longrightarrow> (\<forall>k v. (k, v) \<in> set (node_inputs node) \<longrightarrow> \<not> is_edge_to R v))"
  by (fastforce simp: dangling_edges_def filter_empty_conv case_prod_unfold)

lemma set_update_subset: "set (AList.update k v al) \<subseteq> insert (k, v) (set al)"
  by (induction al) auto

lemma inputs_of_SomeD:
  "inputs_of w n = Some inputs \<Longrightarrow> \<exists>node. (n, node) \<in> set w \<and> node_inputs node = inputs"
  by (auto simp: inputs_of_def node_inputs_def split: option.splits json.splits dest: map_of_SomeD)


lemma set_input_Inr:
  assumes "set_input w nid kk v = Inr w'"
  obtains node inputs where "map_of w nid = Some (JObj node)"
    and "map_of node ''inputs'' = Some (JObj inputs)"
    and "w' = AList.update nid (JObj (AList.update ''inputs'' (JObj (AList.update kk v inputs)) node)) w"
  using assms by (auto simp: set_input_def split: option.splits json.splits)

lemma set_input_succeeds:
  "inputs_of w nid \<noteq> None \<Longrightarrow> \<exists>w'. set_input w nid kk v = Inr w'"
  by (auto simp: set_input_def inputs_of_def split: option.splits json.splits)

lemma set_input_map_of_None:
  assumes "set_input w nid kk v = Inr w'"
  shows "map_of w' n = None \<longleftrightarrow> map_of w n = None"
  using assms by (rule set_input_Inr) (auto simp: update_conv')

lemma set_input_inputs_of:
  assumes "set_input w nid kk v = Inr w'"
  shows "inputs_of w' n =
     (if n = nid then map_option (AList.update kk v) (inputs_of w nid) else inputs_of w n)"
  using assms by (rule set_input_Inr) (auto simp: update_conv' inputs_of_def)

lemma set_input_dangling:
  assumes "set_input w nid kk v = Inr w'" and "dangling_edges R w = []" and "\<not> is_edge_to R v"
  shows "dangling_edges R w' = []"
proof -
  from assms(1) obtain node inputs where n: "map_of w nid = Some (JObj node)"
    and i: "map_of node ''inputs'' = Some (JObj inputs)"
    and w': "w' = AList.update nid (JObj (AList.update ''inputs'' (JObj (AList.update kk v inputs)) node)) w"
    by (rule set_input_Inr)
  let ?new = "JObj (AList.update ''inputs'' (JObj (AList.update kk v inputs)) node)"
  have old: "(nid, JObj node) \<in> set w" using n by (rule map_of_SomeD)
  have oi: "node_inputs (JObj node) = inputs" using i by (simp add: node_inputs_def)
  have ni: "node_inputs ?new = AList.update kk v inputs"
    by (simp add: node_inputs_def update_conv')
  have clean: "\<forall>k x. (k, x) \<in> set inputs \<longrightarrow> \<not> is_edge_to R x"
    using assms(2) old oi by (auto simp: dangling_edges_Nil_iff)
  have newclean: "\<forall>k x. (k, x) \<in> set (node_inputs ?new) \<longrightarrow> \<not> is_edge_to R x"
    using clean assms(3) set_update_subset[of kk v inputs] unfolding ni by auto
  show ?thesis
    unfolding dangling_edges_Nil_iff
  proof (intro allI impI)
    fix n nd k x
    assume m: "(n, nd) \<in> set w'" and e: "(k, x) \<in> set (node_inputs nd)"
    from m w' set_update_subset[of nid ?new w] have "(n, nd) = (nid, ?new) \<or> (n, nd) \<in> set w"
      by auto
    then show "\<not> is_edge_to R x"
    proof
      assume "(n, nd) = (nid, ?new)"
      with e newclean show ?thesis by auto
    next
      assume "(n, nd) \<in> set w"
      with e assms(2) show ?thesis by (auto simp: dangling_edges_Nil_iff)
    qed
  qed
qed

lemma set_inputs_preserves:
  assumes "set_inputs w nids kk v = Inr w'" and "I w"
    and "\<And>w nid w'. I w \<Longrightarrow> nid \<in> set nids \<Longrightarrow> set_input w nid kk v = Inr w' \<Longrightarrow> I w'"
  shows "I w'"
  using assms
proof (induction nids arbitrary: w)
  case Nil
  then show ?case by simp
next
  case (Cons nid nids)
  from Cons.prems(1) obtain w1 where s: "set_input w nid kk v = Inr w1"
    and r: "set_inputs w1 nids kk v = Inr w'"
    by (auto split: sum.splits)
  have i1: "I w1"
    by (rule Cons.prems(3)[OF Cons.prems(2) _ s]) simp
  show ?case
  proof (rule Cons.IH[OF r i1])
    fix w nid' w'
    assume "I w" "nid' \<in> set nids" "set_input w nid' kk v = Inr w'"
    then show "I w'" by (intro Cons.prems(3)[of w nid' w']) simp_all
  qed
qed

lemma for_rules_preserves:
  assumes "for_rules body rules w = Inr w'" and "I w"
    and "\<And>rule w w'. I w \<Longrightarrow> rule \<in> set rules \<Longrightarrow> body rule w = Inr w' \<Longrightarrow> I w'"
  shows "I w'"
  using assms
proof (induction rules arbitrary: w)
  case Nil
  then show ?case by simp
next
  case (Cons rule rules)
  from Cons.prems(1) obtain w1 where s: "body rule w = Inr w1"
    and r: "for_rules body rules w1 = Inr w'"
    by (auto split: sum.splits)
  have i1: "I w1"
    by (rule Cons.prems(3)[OF Cons.prems(2) _ s]) simp
  show ?case
  proof (rule Cons.IH[OF r i1])
    fix w rule' w'
    assume "I w" "rule' \<in> set rules" "body rule' w = Inr w'"
    then show "I w'" by (intro Cons.prems(3)[of w rule' w']) simp_all
  qed
qed

lemma fold_preserves:
  assumes "I w" and "\<And>x w. I w \<Longrightarrow> x \<in> set xs \<Longrightarrow> I (f x w)"
  shows "I (fold f xs w)"
  using assms
proof (induction xs arbitrary: w)
  case Nil
  then show ?case by simp
next
  case (Cons x xs)
  have i1: "I (f x w)"
    by (rule Cons.prems(2)[OF Cons.prems(1)]) simp
  have "I (fold f xs (f x w))"
  proof (rule Cons.IH[OF i1])
    fix y w
    assume "I w" "y \<in> set xs"
    then show "I (f y w)" by (intro Cons.prems(2)) simp_all
  qed
  then show ?case by simp
qed

lemma assign_images_preserves:
  assumes "I w"
    and "\<And>w nid v w'. I w \<Longrightarrow> nid \<in> set nids \<Longrightarrow> v \<in> set vals \<Longrightarrow>
           set_input w nid kk v = Inr w' \<Longrightarrow> I w'"
  shows "I (assign_images w nids kk vals)"
  using assms
proof (induction w nids kk vals rule: assign_images.induct)
  case (1 w nid nids k fname vals)
  have i1: "I (case set_input w nid k fname of Inl e \<Rightarrow> w | Inr w' \<Rightarrow> w')"
  proof (cases "set_input w nid k fname")
    case (Inl e)
    then show ?thesis using "1.prems"(1) by simp
  next
    case (Inr w1)
    have "I w1" by (rule "1.prems"(2)[OF "1.prems"(1) _ _ Inr]) simp_all
    then show ?thesis using Inr by simp
  qed
  have "I (assign_images (case set_input w nid k fname of Inl e \<Rightarrow> w | Inr w' \<Rightarrow> w') nids k vals)"
  proof (rule "1.IH"[OF i1])
    fix w0 nid0 v0 w0'
    assume "I w0" "nid0 \<in> set nids" "v0 \<in> set vals" "set_input w0 nid0 k v0 = Inr w0'"
    then show "I w0'" by (intro "1.prems"(2)[of w0 nid0 v0 w0']) simp_all
  qed
  then show ?case by simp
qed simp_all

subsection \<open>Unlinking and removing\<close>

lemma map_of_filter_keep:
  "map_of xs k = Some x \<Longrightarrow> P x \<Longrightarrow> map_of (filter (\<lambda>(k, v). P v) xs) k = Some x"
  by (induction xs) (auto split: if_splits)

lemma not_edge_JStr [simp]: "\<not> is_edge_to R (JStr s)"
  by (simp add: is_edge_to_def)

lemma not_edge_JInt [simp]: "\<not> is_edge_to R (JInt n)"
  by (simp add: is_edge_to_def)

lemma map_of_unlink_and_remove:
  "R \<noteq> [] \<Longrightarrow> map_of (unlink_and_remove_nodes w R) n =
     (if n \<in> set R then None else map_option (unlink_node R) (map_of w n))"
  unfolding unlink_and_remove_nodes_def
  by (induction w) (auto split: if_splits)

lemma unlink_and_remove_Nil [simp]: "unlink_and_remove_nodes w [] = w"
  by (simp add: unlink_and_remove_nodes_def)

lemma map_of_unlink_and_remove_None:
  "map_of w n = None \<Longrightarrow> map_of (unlink_and_remove_nodes w R) n = None"
  by (cases "R = []") (simp_all add: map_of_unlink_and_remove)

lemma map_of_unlink_and_remove_removed:
  "n \<in> set R \<Longrightarrow> map_of (unlink_and_remove_nodes w R) n = None"
  by (cases "R = []") (simp_all add: map_of_unlink_and_remove)

lemma node_inputs_unlink_node:
  "node_inputs (unlink_node R node) = filter (\<lambda>(k, v). \<not> is_edge_to R v) (node_inputs node)"
  by (auto simp: node_inputs_def unlink_node_def update_conv' split: json.splits option.splits)

lemma inputs_of_unlink_and_remove:
  "n \<notin> set R \<Longrightarrow> inputs_of (unlink_and_remove_nodes w R) n =
     map_option (filter (\<lambda>(k, v). \<not> is_edge_to R v)) (inputs_of w n)"
proof (cases "R = []")
  case True
  assume "n \<notin> set R"
  show ?thesis using True by (cases "inputs_of w n") (simp_all add: is_edge_to_def split: json.splits list.splits)
next
  case False
  assume n: "n \<notin> set R"
  show ?thesis
    using n by (auto simp: inputs_of_def map_of_unlink_and_remove[OF False] unlink_node_def update_conv'
        split: option.splits json.splits)
qed

lemma set_unlink_and_remove:
  "(n, node) \<in> set (unlink_and_remove_nodes w R) \<Longrightarrow>
   \<exists>node0. (n, node0) \<in> set w \<and> (node = node0 \<or> node = unlink_node R node0) \<and> (R \<noteq> [] \<longrightarrow> node = unlink_node R node0)"
  by (auto simp: unlink_and_remove_nodes_def split: if_splits)

lemma dangling_unlink_and_remove_same:
  "dangling_edges R (unlink_and_remove_nodes w R) = []"
proof (cases "R = []")
  case True
  then show ?thesis
    by (auto simp: dangling_edges_Nil_iff is_edge_to_def split: json.splits list.splits)
next
  case False
  show ?thesis
    unfolding dangling_edges_Nil_iff
  proof (intro allI impI)
    fix n node k v
    assume m: "(n, node) \<in> set (unlink_and_remove_nodes w R)" and e: "(k, v) \<in> set (node_inputs node)"
    from set_unlink_and_remove[OF m] False obtain node0 where "node = unlink_node R node0" by auto
    with e show "\<not> is_edge_to R v" by (auto simp: node_inputs_unlink_node)
  qed
qed

lemma dangling_unlink_and_remove_other:
  assumes "dangling_edges R' w = []"
  shows "dangling_edges R' (unlink_and_remove_nodes w R) = []"
  unfolding dangling_edges_Nil_iff
proof (intro allI impI)
  fix n node k v
  assume m: "(n, node) \<in> set (unlink_and_remove_nodes w R)" and e: "(k, v) \<in> set (node_inputs node)"
  from set_unlink_and_remove[OF m] obtain node0 where n0: "(n, node0) \<in> set w"
    and c: "node = node0 \<or> node = unlink_node R node0" by auto
  from c e have "(k, v) \<in> set (node_inputs node0)"
    by (auto simp: node_inputs_unlink_node)
  with assms n0 show "\<not> is_edge_to R' v" by (auto simp: dangling_edges_Nil_iff)
qed

subsection \<open>Assigning the input images\<close>

lemma has_input_inputs_of: "has_input w n k v \<Longrightarrow> inputs_of w n \<noteq> None"
  by (auto simp: has_input_def split: option.splits)

lemma set_input_keeps_inputs:
  "set_input w nid kk v = Inr w' \<Longrightarrow> inputs_of w n \<noteq> None \<Longrightarrow> inputs_of w' n \<noteq> None"
  by (auto simp: set_input_inputs_of)

lemma set_input_keeps_has_input:
  "set_input w nid kk v = Inr w' \<Longrightarrow> nid \<noteq> n \<Longrightarrow> has_input w n k x \<Longrightarrow> has_input w' n k x"
  by (simp add: has_input_def set_input_inputs_of)

lemma set_input_sets:
  "set_input w nid kk v = Inr w' \<Longrightarrow> has_input w' nid kk v"
  by (erule set_input_Inr) (simp add: has_input_def inputs_of_def update_conv')

lemma unlink_keeps_inputs:
  "n \<notin> set R \<Longrightarrow> inputs_of w n \<noteq> None \<Longrightarrow> inputs_of (unlink_and_remove_nodes w R) n \<noteq> None"
  by (simp add: inputs_of_unlink_and_remove)

lemma unlink_keeps_has_input:
  "n \<notin> set R \<Longrightarrow> has_input w n k (JStr f) \<Longrightarrow> has_input (unlink_and_remove_nodes w R) n k (JStr f)"
  by (auto simp: has_input_def inputs_of_unlink_and_remove split: option.splits
      intro!: map_of_filter_keep[where P = "\<lambda>v. \<not> is_edge_to R v"])

lemma input_images_rule_eq:
  "rtype_of rule = ''input_images'' \<Longrightarrow>
   input_images_rule eff rule w =
     unlink_and_remove_nodes
       (assign_images w (node_ids rule) (key rule) (supplied_images eff))
       (drop (length (supplied_images eff)) (node_ids rule))"
  by (cases "node_ids rule")
     (auto simp: input_images_rule_def supplied_images_def Let_def min_def
        split: option.splits json.splits list.splits)

lemma input_images_rule_other:
  "rtype_of rule \<noteq> ''input_images'' \<Longrightarrow> input_images_rule eff rule w = w"
  by (simp add: input_images_rule_def)

lemma assign_images_assigns:
  assumes "distinct nids"
    and "\<forall>n \<in> set (take (length fnames) nids). inputs_of w n \<noteq> None"
  shows "\<forall>i < min (length fnames) (length nids).
           has_input (assign_images w nids kk (map JStr fnames)) (nids ! i) kk (JStr (fnames ! i))"
  using assms
proof (induction nids arbitrary: w fnames)
  case Nil
  then show ?case by simp
next
  case (Cons n ns)
  show ?case
  proof (cases fnames)
    case Nil
    then show ?thesis by simp
  next
    case (Cons f fs)
    from Cons.prems(2) Cons have "inputs_of w n \<noteq> None" by simp
    then obtain w1 where s: "set_input w n kk (JStr f) = Inr w1"
      using set_input_succeeds by blast
    have a: "assign_images w (n # ns) kk (map JStr fnames) = assign_images w1 ns kk (map JStr fs)"
      using Cons s by simp
    have d: "distinct ns" and nn: "n \<notin> set ns" using Cons.prems(1) by simp_all
    have q: "\<forall>x \<in> set (take (length fs) ns). inputs_of w1 x \<noteq> None"
      using Cons.prems(2) Cons set_input_keeps_inputs[OF s] by simp
    have ih: "\<forall>i < min (length fs) (length ns).
           has_input (assign_images w1 ns kk (map JStr fs)) (ns ! i) kk (JStr (fs ! i))"
      by (rule Cons.IH[OF d q])
    have h0: "has_input (assign_images w1 ns kk (map JStr fs)) n kk (JStr f)"
    proof (rule assign_images_preserves[where I = "\<lambda>w. has_input w n kk (JStr f)"])
      show "has_input w1 n kk (JStr f)" by (rule set_input_sets[OF s])
    next
      fix w0 nid v w0'
      assume "has_input w0 n kk (JStr f)" "nid \<in> set ns" "set_input w0 nid kk v = Inr w0'"
      then show "has_input w0' n kk (JStr f)"
        using nn set_input_keeps_has_input[of w0 nid kk v w0' n kk "JStr f"] by auto
    qed
    show ?thesis
    proof (intro allI impI)
      fix i
      assume i: "i < min (length fnames) (length (n # ns))"
      show "has_input (assign_images w (n # ns) kk (map JStr fnames)) ((n # ns) ! i) kk (JStr (fnames ! i))"
      proof (cases i)
        case 0
        then show ?thesis using h0 a Cons by simp
      next
        case (Suc j)
        with i Cons have "j < min (length fs) (length ns)" by simp
        with ih have "has_input (assign_images w1 ns kk (map JStr fs)) (ns ! j) kk (JStr (fs ! j))"
          by simp
        then show ?thesis using a Cons Suc by simp
      qed
    qed
  qed
qed

subsection \<open>Steps of the loops\<close>

lemma set_inputs_map_of_None:
  "set_inputs w nids kk v = Inr w' \<Longrightarrow> map_of w n = None \<Longrightarrow> map_of w' n = None"
  by (erule set_inputs_preserves[where I = "\<lambda>w. map_of w n = None"])
     (simp_all add: set_input_map_of_None)

lemma set_inputs_keeps_inputs:
  "set_inputs w nids kk v = Inr w' \<Longrightarrow> inputs_of w n \<noteq> None \<Longrightarrow> inputs_of w' n \<noteq> None"
  by (erule set_inputs_preserves[where I = "\<lambda>w. inputs_of w n \<noteq> None"])
     (simp_all add: set_input_keeps_inputs)

lemma set_inputs_keeps_has_input:
  assumes "set_inputs w nids kk v = Inr w'" and "n \<notin> set nids" and "has_input w n k x"
  shows "has_input w' n k x"
proof (rule set_inputs_preserves[OF assms(1), where I = "\<lambda>w. has_input w n k x"])
  show "has_input w n k x" by (rule assms(3))
next
  fix w0 nid w0'
  assume "has_input w0 n k x" "nid \<in> set nids" "set_input w0 nid kk v = Inr w0'"
  then show "has_input w0' n k x"
    using assms(2) set_input_keeps_has_input[of w0 nid kk v w0' n k x] by auto
qed

lemma set_inputs_dangling:
  assumes "set_inputs w nids kk v = Inr w'" and "dangling_edges R w = []" and "\<not> is_edge_to R v"
  shows "dangling_edges R w' = []"
proof (rule set_inputs_preserves[OF assms(1), where I = "\<lambda>w. dangling_edges R w = []"])
  show "dangling_edges R w = []" by (rule assms(2))
next
  fix w0 nid w0'
  assume "dangling_edges R w0 = []" "nid \<in> set nids" "set_input w0 nid kk v = Inr w0'"
  then show "dangling_edges R w0' = []"
    using assms(3) set_input_dangling by blast
qed

lemma text_rule_write:
  "text_rule prompt eff rule w = Inr w' \<Longrightarrow>
   w' = w \<or> (\<exists>v. set_inputs w (node_ids rule) (key rule) v = Inr w')"
  by (auto simp: text_rule_def Let_def split: if_splits option.splits)

lemma input_image_rule_write:
  "input_image_rule eff rule w = Inr w' \<Longrightarrow>
   w' = w \<or> (\<exists>v. set_inputs w (node_ids rule) (key rule) v = Inr w')"
  by (auto simp: input_image_rule_def split: if_splits option.splits)

lemma scalar_rule_write:
  "scalar_rule eff rule w = Inr w' \<Longrightarrow>
   w' = w \<or> (rtype_of rule \<noteq> ''input_images''
              \<and> (\<exists>v. get_not_none eff (rtype_of rule) = Some v
                      \<and> set_inputs w (node_ids rule) (key rule) v = Inr w'))"
  by (auto simp: scalar_rule_def Let_def split: if_splits option.splits)

lemma assign_images_map_of_None:
  "map_of w n = None \<Longrightarrow> map_of (assign_images w nids kk vals) n = None"
  by (erule assign_images_preserves[where I = "\<lambda>w. map_of w n = None"])
     (simp add: set_input_map_of_None)

lemma assign_images_keeps_inputs:
  "inputs_of w n \<noteq> None \<Longrightarrow> inputs_of (assign_images w nids kk vals) n \<noteq> None"
  by (erule assign_images_preserves[where I = "\<lambda>w. inputs_of w n \<noteq> None"])
     (simp add: set_input_keeps_inputs)

lemma assign_images_keeps_has_input:
  assumes "n \<notin> set nids" and "has_input w n k x"
  shows "has_input (assign_images w nids kk vals) n k x"
proof (rule assign_images_preserves[where I = "\<lambda>w. has_input w n k x"])
  show "has_input w n k x" by (rule assms(2))
next
  fix w0 nid v w0'
  assume "has_input w0 n k x" "nid \<in> set nids" "set_input w0 nid kk v = Inr w0'"
  then show "has_input w0' n k x"
    using assms(1) set_input_keeps_has_input[of w0 nid kk v w0' n k x] by auto
qed

lemma assign_images_dangling:
  assumes "dangling_edges R w = []" and "\<forall>v \<in> set vals. \<not> is_edge_to R v"
  shows "dangling_edges R (assign_images w nids kk vals) = []"
proof (rule assign_images_preserves[where I = "\<lambda>w. dangling_edges R w = []"])
  show "dangling_edges R w = []" by (rule assms(1))
next
  fix w0 nid v w0'
  assume "dangling_edges R w0 = []" "v \<in> set vals" "set_input w0 nid kk v = Inr w0'"
  then show "dangling_edges R w0' = []"
    using assms(2) set_input_dangling by blast
qed

text \<open>What a step of the third loop keeps, for any rule.\<close>

lemma input_images_rule_map_of_None:
  "map_of w n = None \<Longrightarrow> map_of (input_images_rule eff rule w) n = None"
  by (cases "rtype_of rule = ''input_images''")
     (simp_all add: input_images_rule_eq input_images_rule_other
        map_of_unlink_and_remove_None assign_images_map_of_None)

lemma input_images_rule_dangling:
  "dangling_edges R w = [] \<Longrightarrow> \<forall>v \<in> set (supplied_images eff). \<not> is_edge_to R v \<Longrightarrow>
   dangling_edges R (input_images_rule eff rule w) = []"
  by (cases "rtype_of rule = ''input_images''")
     (simp_all add: input_images_rule_eq input_images_rule_other
        dangling_unlink_and_remove_other assign_images_dangling)

lemma input_images_rule_keeps_inputs:
  assumes "n \<notin> set (node_ids rule)" and "inputs_of w n \<noteq> None"
  shows "inputs_of (input_images_rule eff rule w) n \<noteq> None"
proof (cases "rtype_of rule = ''input_images''")
  case True
  from assms(1) have "n \<notin> set (drop (length (supplied_images eff)) (node_ids rule))"
    by (auto dest: in_set_dropD)
  then show ?thesis
    using True assms(2)
    by (simp add: input_images_rule_eq unlink_keeps_inputs assign_images_keeps_inputs)
next
  case False
  then show ?thesis using assms(2) by (simp add: input_images_rule_other)
qed

lemma input_images_rule_keeps_has_input:
  assumes "n \<notin> set (node_ids rule)" and "has_input w n k (JStr f)"
  shows "has_input (input_images_rule eff rule w) n k (JStr f)"
proof (cases "rtype_of rule = ''input_images''")
  case True
  from assms(1) have "n \<notin> set (drop (length (supplied_images eff)) (node_ids rule))"
    by (auto dest: in_set_dropD)
  then show ?thesis
    using True assms
    by (simp add: input_images_rule_eq unlink_keeps_has_input assign_images_keeps_has_input)
next
  case False
  then show ?thesis using assms(2) by (simp add: input_images_rule_other)
qed

text \<open>What the step of the rule itself establishes.\<close>

lemma input_images_rule_own:
  assumes rt: "rtype_of rule = ''input_images''"
    and sup: "supplied_images eff = map JStr fnames"
    and d: "distinct (node_ids rule)"
    and q: "\<forall>n \<in> set (take (length fnames) (node_ids rule)). inputs_of w n \<noteq> None"
  shows "\<forall>i < min (length fnames) (length (node_ids rule)).
           has_input (input_images_rule eff rule w) (node_ids rule ! i) (key rule) (JStr (fnames ! i))"
    and "\<forall>n \<in> set (drop (length fnames) (node_ids rule)). map_of (input_images_rule eff rule w) n = None"
    and "dangling_edges (drop (length fnames) (node_ids rule)) (input_images_rule eff rule w) = []"
proof -
  let ?ids = "node_ids rule"
  let ?w1 = "assign_images w ?ids (key rule) (map JStr fnames)"
  have eq: "input_images_rule eff rule w = unlink_and_remove_nodes ?w1 (drop (length fnames) ?ids)"
    using input_images_rule_eq[OF rt, of eff w] sup by simp
  have a: "\<forall>i < min (length fnames) (length ?ids).
           has_input ?w1 (?ids ! i) (key rule) (JStr (fnames ! i))"
    by (rule assign_images_assigns[OF d q])
  show "\<forall>i < min (length fnames) (length ?ids).
           has_input (input_images_rule eff rule w) (?ids ! i) (key rule) (JStr (fnames ! i))"
  proof (intro allI impI)
    fix i
    assume i: "i < min (length fnames) (length ?ids)"
    have "?ids ! i \<in> set (take (length fnames) ?ids)"
      using i by (auto simp: in_set_conv_nth intro!: exI[of _ i])
    moreover have "set (take (length fnames) ?ids) \<inter> set (drop (length fnames) ?ids) = {}"
      using d by (metis append_take_drop_id distinct_append)
    ultimately have "?ids ! i \<notin> set (drop (length fnames) ?ids)" by auto
    then show "has_input (input_images_rule eff rule w) (?ids ! i) (key rule) (JStr (fnames ! i))"
      using a i unfolding eq by (simp add: unlink_keeps_has_input)
  qed
  show "\<forall>n \<in> set (drop (length fnames) ?ids). map_of (input_images_rule eff rule w) n = None"
    unfolding eq by (simp add: map_of_unlink_and_remove_removed)
  show "dangling_edges (drop (length fnames) ?ids) (input_images_rule eff rule w) = []"
    unfolding eq by (rule dangling_unlink_and_remove_same)
qed

lemma fold_establishes:
  assumes "x \<in> set xs" and "Pre w"
    and "\<And>y w. y \<in> set xs \<Longrightarrow> Pre w \<Longrightarrow> Pre (f y w)"
    and "\<And>w. Pre w \<Longrightarrow> J (f x w)"
    and "\<And>y w. y \<in> set xs \<Longrightarrow> y \<noteq> x \<Longrightarrow> Pre w \<Longrightarrow> J w \<Longrightarrow> J (f y w)"
  shows "J (fold f xs w) \<and> Pre (fold f xs w)"
proof -
  have both: "Pre w \<Longrightarrow> J w \<Longrightarrow> set ys \<subseteq> set xs \<Longrightarrow> J (fold f ys w) \<and> Pre (fold f ys w)" for ys w
  proof (induction ys arbitrary: w)
    case Nil
    then show ?case by simp
  next
    case (Cons y ys)
    have y: "y \<in> set xs" using Cons.prems(3) by simp
    have i: "Pre (f y w)" by (rule assms(3)[OF y Cons.prems(1)])
    have j: "J (f y w)"
    proof (cases "y = x")
      case True
      then show ?thesis using assms(4)[OF Cons.prems(1)] by simp
    next
      case False
      show ?thesis by (rule assms(5)[OF y False Cons.prems(1) Cons.prems(2)])
    qed
    from Cons.IH[OF i j] Cons.prems(3) show ?case by simp
  qed
  have main: "x \<in> set ys \<Longrightarrow> Pre w \<Longrightarrow> set ys \<subseteq> set xs \<Longrightarrow> J (fold f ys w) \<and> Pre (fold f ys w)" for ys w
  proof (induction ys arbitrary: w)
    case Nil
    then show ?case by simp
  next
    case (Cons y ys)
    have y: "y \<in> set xs" using Cons.prems(3) by simp
    have i: "Pre (f y w)" by (rule assms(3)[OF y Cons.prems(2)])
    have s: "set ys \<subseteq> set xs" using Cons.prems(3) by simp
    show ?case
    proof (cases "y = x")
      case True
      have "J (f y w)" using assms(4)[OF Cons.prems(2)] True by simp
      from both[OF i this s] show ?thesis by simp
    next
      case False
      with Cons.prems(1) have "x \<in> set ys" by simp
      from Cons.IH[OF this i s] show ?thesis by simp
    qed
  qed
  show ?thesis by (rule main[OF assms(1) assms(2)]) simp
qed

subsection \<open>Pruning through the four loops\<close>

lemma apply_rules_pruning:
  assumes mem: "rule \<in> set nodes"
    and rt: "rtype_of rule = ''input_images''"
    and sup: "supplied_images eff = map JStr fnames"
    and d: "distinct (node_ids rule)"
    and ri: "\<forall>nid \<in> set (node_ids rule). inputs_of base nid \<noteq> None"
    and disj: "\<forall>other \<in> set nodes. other \<noteq> rule \<longrightarrow> set (node_ids other) \<inter> set (node_ids rule) = {}"
    and ne: "\<forall>k v. get_not_none eff k = Some v \<longrightarrow> \<not> is_edge_to (drop (length fnames) (node_ids rule)) v"
    and res: "apply_rules base nodes prompt eff = Inr out"
  shows "(\<forall>i < min (length fnames) (length (node_ids rule)).
            has_input out (node_ids rule ! i) (key rule) (JStr (fnames ! i)))
       \<and> (\<forall>nid \<in> set (drop (length fnames) (node_ids rule)). map_of out nid = None)
       \<and> dangling_edges (drop (length fnames) (node_ids rule)) out = []"
proof -
  let ?ids = "node_ids rule"
  let ?m = "length fnames"
  let ?Q = "\<lambda>w. \<forall>n \<in> set ?ids. inputs_of w n \<noteq> None"
  let ?Qk = "\<lambda>w. \<forall>n \<in> set (take ?m ?ids). inputs_of w n \<noteq> None"
  let ?J = "\<lambda>w. (\<forall>i < min ?m (length ?ids). has_input w (?ids ! i) (key rule) (JStr (fnames ! i)))
       \<and> (\<forall>nid \<in> set (drop ?m ?ids). map_of w nid = None)
       \<and> dangling_edges (drop ?m ?ids) w = []"
  from res obtain w1 w2 where p1: "for_rules (text_rule prompt eff) nodes base = Inr w1"
    and p2: "for_rules (input_image_rule eff) nodes w1 = Inr w2"
    and p4: "for_rules (scalar_rule eff) nodes (fold (input_images_rule eff) nodes w2) = Inr out"
    by (auto simp: apply_rules_def split: sum.splits)
  have q1: "?Q w1"
  proof (rule for_rules_preserves[OF p1, where I = ?Q])
    show "?Q base" by (rule ri)
  next
    fix r w w'
    assume "?Q w" "text_rule prompt eff r w = Inr w'"
    then show "?Q w'"
      using text_rule_write[of prompt eff r w w'] set_inputs_keeps_inputs by blast
  qed
  have q2: "?Q w2"
  proof (rule for_rules_preserves[OF p2, where I = ?Q])
    show "?Q w1" by (rule q1)
  next
    fix r w w'
    assume "?Q w" "input_image_rule eff r w = Inr w'"
    then show "?Q w'"
      using input_image_rule_write[of eff r w w'] set_inputs_keeps_inputs by blast
  qed
  have qk2: "?Qk w2" using q2 by (auto dest: in_set_takeD)
  have strs: "\<forall>v \<in> set (supplied_images eff). \<not> is_edge_to (drop ?m ?ids) v"
    unfolding sup by auto
  have nth_in: "\<And>i. i < min ?m (length ?ids) \<Longrightarrow> ?ids ! i \<in> set ?ids"
    by simp
  have j3: "?J (fold (input_images_rule eff) nodes w2) \<and> ?Qk (fold (input_images_rule eff) nodes w2)"
  proof (rule fold_establishes[where Pre = ?Qk and J = ?J, OF mem qk2])
    fix y w
    assume y: "y \<in> set nodes" and qk: "?Qk w"
    show "?Qk (input_images_rule eff y w)"
    proof (cases "y = rule")
      case True
      have "\<forall>i < min ?m (length ?ids).
           has_input (input_images_rule eff rule w) (?ids ! i) (key rule) (JStr (fnames ! i))"
        by (rule input_images_rule_own(1)[OF rt sup d qk])
      then have "\<forall>i < min ?m (length ?ids). inputs_of (input_images_rule eff rule w) (?ids ! i) \<noteq> None"
        using has_input_inputs_of by blast
      then show ?thesis
        unfolding True by (auto simp: in_set_conv_nth)
    next
      case False
      with disj y have dj: "set (node_ids y) \<inter> set ?ids = {}" by blast
      show ?thesis
      proof
        fix n
        assume n: "n \<in> set (take ?m ?ids)"
        then have "n \<in> set ?ids" by (rule in_set_takeD)
        with dj have "n \<notin> set (node_ids y)" by auto
        then show "inputs_of (input_images_rule eff y w) n \<noteq> None"
          using qk n by (intro input_images_rule_keeps_inputs) auto
      qed
    qed
  next
    fix w
    assume qk: "?Qk w"
    show "?J (input_images_rule eff rule w)"
      using input_images_rule_own[OF rt sup d qk] by blast
  next
    fix y w
    assume y: "y \<in> set nodes" and ny: "y \<noteq> rule" and j: "?J w"
    from disj y ny have dj: "set (node_ids y) \<inter> set ?ids = {}" by blast
    have a: "\<forall>i < min ?m (length ?ids).
               has_input (input_images_rule eff y w) (?ids ! i) (key rule) (JStr (fnames ! i))"
    proof (intro allI impI)
      fix i
      assume i: "i < min ?m (length ?ids)"
      then have "?ids ! i \<in> set ?ids" by simp
      with dj have "?ids ! i \<notin> set (node_ids y)" by auto
      then show "has_input (input_images_rule eff y w) (?ids ! i) (key rule) (JStr (fnames ! i))"
        using j i by (intro input_images_rule_keeps_has_input) auto
    qed
    have b: "\<forall>nid \<in> set (drop ?m ?ids). map_of (input_images_rule eff y w) nid = None"
      using j by (simp add: input_images_rule_map_of_None)
    have c: "dangling_edges (drop ?m ?ids) (input_images_rule eff y w) = []"
      using j strs by (intro input_images_rule_dangling) auto
    from a b c show "?J (input_images_rule eff y w)" by blast
  qed
  show ?thesis
  proof (rule for_rules_preserves[OF p4, where I = ?J])
    show "?J (fold (input_images_rule eff) nodes w2)" using j3 by blast
  next
    fix r w w'
    assume j: "?J w" and r: "r \<in> set nodes" and s: "scalar_rule eff r w = Inr w'"
    from scalar_rule_write[OF s] consider "w' = w"
      | v where "rtype_of r \<noteq> ''input_images''" "get_not_none eff (rtype_of r) = Some v"
          "set_inputs w (node_ids r) (key r) v = Inr w'"
      by blast
    then show "?J w'"
    proof cases
      case 1
      then show ?thesis using j by simp
    next
      case 2
      from 2(1) rt have "r \<noteq> rule" by auto
      with disj r have dj: "set (node_ids r) \<inter> set ?ids = {}" by blast
      from 2(2) ne have nv: "\<not> is_edge_to (drop ?m ?ids) v" by blast
      have a: "\<forall>i < min ?m (length ?ids). has_input w' (?ids ! i) (key rule) (JStr (fnames ! i))"
      proof (intro allI impI)
        fix i
        assume i: "i < min ?m (length ?ids)"
        then have "?ids ! i \<in> set ?ids" by simp
        with dj have "?ids ! i \<notin> set (node_ids r)" by auto
        then show "has_input w' (?ids ! i) (key rule) (JStr (fnames ! i))"
          using j i set_inputs_keeps_has_input[OF 2(3)] by auto
      qed
      have b: "\<forall>nid \<in> set (drop ?m ?ids). map_of w' nid = None"
        using j set_inputs_map_of_None[OF 2(3)] by auto
      have c: "dangling_edges (drop ?m ?ids) w' = []"
        using j nv set_inputs_dangling[OF 2(3)] by auto
      from a b c show ?thesis by blast
    qed
  qed
qed

lemma supplied_images_effective:
  "supplied_images (fst (effective_params g params)) = supplied_images params"
  by (cases "get_not_none params ''seed''")
     (simp_all add: effective_params_seeded effective_params_unseeded supplied_images_def update_conv')

lemma effective_params_values:
  assumes "get_not_none (fst (effective_params g params)) k = Some v"
  shows "map_of params k = Some v \<or> (\<exists>n. v = JInt n)"
proof (cases "get_not_none params ''seed''")
  case None
  from assms show ?thesis
    unfolding effective_params_unseeded[OF None]
    by (auto simp: get_not_none_def update_conv' split: option.splits json.splits if_splits)
next
  case (Some s)
  then have "get_not_none params ''seed'' \<noteq> None" by simp
  from assms show ?thesis
    unfolding effective_params_seeded[OF \<open>get_not_none params ''seed'' \<noteq> None\<close>]
    by (auto simp: get_not_none_def split: option.splits json.splits)
qed

section \<open>Properties of the protocol client\<close>

lemma await_events_done:
  "await_events s T pid tes tks = Some (Done tes' td) \<Longrightarrow>
     exec_done_seen pid tks = Some td
   \<and> tes' = (case tes of None \<Rightarrow> exec_start_seen pid tks | Some t \<Rightarrow> Some t)"
proof (induction tks arbitrary: tes)
  case Nil
  then show ?case by simp
next
  case (Cons tk rest)
  show ?case
  proof (cases "event_of pid tk")
    case Ignore
    with Cons.prems have "await_events s T pid tes rest = Some (Done tes' td)"
      by (auto simp: event_of_def split: if_splits frame.splits option.splits action.splits)
    from Cons.IH[OF this] Ignore show ?thesis by (auto split: option.splits)
  next
    case NodeStarted
    with Cons.prems have
      "await_events s T pid (case tes of None \<Rightarrow> Some (stamp tk) | Some t \<Rightarrow> Some t) rest
         = Some (Done tes' td)"
      by (auto simp: event_of_def split: if_splits frame.splits option.splits action.splits)
    from Cons.IH[OF this] NodeStarted show ?thesis
      by (auto split: option.splits)
  next
    case Finished
    with Cons.prems show ?thesis
      by (auto simp: event_of_def split: if_splits frame.splits option.splits action.splits)
  next
    case (Failed m)
    with Cons.prems show ?thesis
      by (auto simp: event_of_def split: if_splits frame.splits option.splits action.splits)
  next
    case (Crash e)
    with Cons.prems show ?thesis
      by (auto simp: event_of_def split: if_splits frame.splits option.splits action.splits)
  qed
qed

lemma submit_and_wait_done:
  assumes "submit_and_wait T env = Some (Inr res)"
  obtains pid tes td ms where "tracked_id env = Some pid"
    and "await_events (start_ts env) T pid None (ticks env) = Some (Done tes td)"
    and "resolve env = Inr ms"
    and "comfy_queue_s res = fst (compute_timings (start_ts env) (Some (queued_ts env)) tes (Some td) (final_ts env))"
    and "comfy_exec_s res = snd (compute_timings (start_ts env) (Some (queued_ts env)) tes (Some td) (final_ts env))"
    and "media res = ms"
  using assms
  by (auto simp: submit_and_wait_def tracked_id_def split_beta
      split: option.splits sum.splits wait_result.splits)

lemma compute_timings_nonneg:
  "0 \<le> fst (compute_timings s tq tes td c) \<and> 0 \<le> snd (compute_timings s tq tes td c)"
  by (simp add: compute_timings_def Let_def split: option.splits)

lemma await_events_skip:
  assumes "\<forall>t \<in> set pre. now t - s \<le> T \<and> \<not> terminal pid t"
  shows "\<exists>tes'. await_events s T pid tes (pre @ rest) = await_events s T pid tes' rest"
  using assms
proof (induction pre arbitrary: tes)
  case Nil
  show ?case by auto
next
  case (Cons tk pre)
  from Cons.prems have h: "now tk - s \<le> T" "\<not> terminal pid tk"
    and r: "\<forall>t \<in> set pre. now t - s \<le> T \<and> \<not> terminal pid t"
    by simp_all
  from h obtain tes1 where "await_events s T pid tes ((tk # pre) @ rest)
      = await_events s T pid tes1 (pre @ rest)"
    by (auto simp: terminal_def event_of_def split: frame.splits option.splits action.splits)
  with Cons.IH[OF r, of tes1] show ?case by auto
qed

lemma await_events_timeout_iff:
  "await_events s T pid tes tks = Some TimedOut \<longleftrightarrow>
     (\<exists>pre tk rest. tks = pre @ tk # rest \<and> now tk - s > T
        \<and> (\<forall>t \<in> set pre. now t - s \<le> T \<and> \<not> terminal pid t))"
proof
  assume "await_events s T pid tes tks = Some TimedOut"
  then show "\<exists>pre tk rest. tks = pre @ tk # rest \<and> now tk - s > T
        \<and> (\<forall>t \<in> set pre. now t - s \<le> T \<and> \<not> terminal pid t)"
  proof (induction tks arbitrary: tes)
    case Nil
    then show ?case by simp
  next
    case (Cons tk tks)
    show ?case
    proof (cases "now tk - s > T")
      case True
      then have "tk # tks = [] @ tk # tks \<and> now tk - s > T
          \<and> (\<forall>t \<in> set []. now t - s \<le> T \<and> \<not> terminal pid t)" by simp
      then show ?thesis by blast
    next
      case False
      with Cons.prems obtain tes1 where a: "await_events s T pid tes1 tks = Some TimedOut"
        and nt: "\<not> terminal pid tk"
        by (auto simp: terminal_def event_of_def
            split: frame.splits option.splits action.splits if_splits)
      from Cons.IH[OF a] obtain pre tk' rest where d: "tks = pre @ tk' # rest"
        and t: "now tk' - s > T"
        and p: "\<forall>t \<in> set pre. now t - s \<le> T \<and> \<not> terminal pid t"
        by blast
      have "tk # tks = (tk # pre) @ tk' # rest \<and> now tk' - s > T
          \<and> (\<forall>t \<in> set (tk # pre). now t - s \<le> T \<and> \<not> terminal pid t)"
        using d t p False nt by simp
      then show ?thesis by blast
    qed
  qed
next
  assume "\<exists>pre tk rest. tks = pre @ tk # rest \<and> now tk - s > T
        \<and> (\<forall>t \<in> set pre. now t - s \<le> T \<and> \<not> terminal pid t)"
  then obtain pre tk rest where d: "tks = pre @ tk # rest" and t: "now tk - s > T"
    and p: "\<forall>t \<in> set pre. now t - s \<le> T \<and> \<not> terminal pid t"
    by blast
  from await_events_skip[OF p, of tes "tk # rest"] obtain tes' where
    "await_events s T pid tes tks = await_events s T pid tes' (tk # rest)"
    using d by auto
  then show "await_events s T pid tes tks = Some TimedOut"
    using t by simp
qed

lemma await_events_error:
  assumes "\<forall>t \<in> set pre. now t - s \<le> T \<and> \<not> terminal pid t"
    and "now tk - s \<le> T" and "event_of pid tk = Failed err"
  shows "await_events s T pid tes (pre @ tk # rest) = Some (RemoteError err)"
proof -
  from await_events_skip[OF assms(1), of tes "tk # rest"] obtain tes' where
    "await_events s T pid tes (pre @ tk # rest) = await_events s T pid tes' (tk # rest)"
    by auto
  then show ?thesis
    using assms(2,3)
    by (auto simp: event_of_def split: frame.splits option.splits action.splits)
qed

lemma on_message_execution_error:
  assumes "map_of kv ''type'' = Some (JStr ''execution_error'')"
    and "map_of kv ''data'' = Some (JObj d)"
    and "map_of d ''exception_message'' = Some msg"
  shows "on_message pid (JObj kv) = Failed (if truthy msg then msg else JStr ''ComfyUI execution error'')"
  using assms by (simp add: on_message_def py_get_def py_get_data_def)

subsection \<open>The per-requester limit\<close>

lemmas example_eval =
  example_queue_def example_jobs_def init_def set_processor_def run_def exec_def
  enqueue_def ensure_workers_def register_job_def inc_pending_job_def inc_pending_def
  pending_count_by_user_def queue_put_def worker_step_def worker_take_def worker_start_def
  worker_finish_def set_worker_def dec_pending_job_def dec_pending_def cancel_job_def
  can_enqueue_def limit_enabled_def Let_def

lemma can_enqueue_at_limit:
  "0 < R \<Longrightarrow> 0 < L \<Longrightarrow> pending_count_by_user s R = L \<Longrightarrow> \<not> can_enqueue s R (Some L)"
  by (simp add: can_enqueue_def limit_enabled_def)

lemma can_enqueue_after_dec:
  "0 < R \<Longrightarrow> 0 < L \<Longrightarrow> pending_count_by_user s R = L \<Longrightarrow> can_enqueue (dec_pending s R) R (Some L)"
  by (simp add: can_enqueue_def limit_enabled_def dec_pending_count)

lemma can_enqueue_unlimited:
  "R \<le> 0 \<or> per_user_limit = None \<or> (\<exists>l. per_user_limit = Some l \<and> l \<le> 0) \<Longrightarrow>
   can_enqueue s R per_user_limit"
  by (auto simp: can_enqueue_def limit_enabled_def)

text \<open>
  C1. For a requester \<open>R > 0\<close> and a limit \<open>L > 0\<close>, \<open>can_enqueue R L\<close> must be false
  whenever \<open>R\<close> has \<open>L\<close> accepted jobs that are neither started nor canceled. The counter
  behaves as claimed (the three lemmas above), but it is decreased twice for a job that is
  canceled while its worker waits for the global semaphore: once by \<open>cancel_job\<close> and once
  more by the start transition. At the end of the run below, under a limit of 2, the
  worker of topic \<open>b\<close> is busy with job 2 and user 5 has two accepted jobs, 3 and 4, both
  queued, registered, not started and not canceled; the pending counter of user 5 is 1,
  \<open>can_enqueue 5 2\<close> is true, and \<open>enqueue_limited\<close> accepts a third pending job.
\<close>

theorem can_enqueue_after_canceled_job_started:
  "(let s = run example_queue race_ops in
      workers s ''b'' = Some [WRunning 2] \<and> queues s ''b'' = Some [Some 3, Some 4]
      \<and> registry s 103 = Some 3 \<and> registry s 104 = Some 4
      \<and> user_id (jobs s 3) = 5 \<and> \<not> started (jobs s 3) \<and> \<not> canceled (jobs s 3)
      \<and> user_id (jobs s 4) = 5 \<and> \<not> started (jobs s 4) \<and> \<not> canceled (jobs s 4)
      \<and> pending_count_by_user s 5 = 1
      \<and> can_enqueue s 5 (Some 2)
      \<and> fst (projr (enqueue_limited s ''b'' 5 (Some 2))))"
  by code_simp

text \<open>
  C2. \<open>cancel_job\<close> returns true exactly when the registry holds, under the message id, a
  job that is neither started nor canceled. On success the job is marked canceled with
  the \<open>by_admin\<close> flag recorded, and the pending counter of its user is decreased at once
  (by exactly one when the user is identified and has a count of at least one). A second
  call returns false, directly after the first or after any further operations as long
  as the message id still denotes the same job; and once a job has started, cancellation
  is rejected for as long as it stays registered.
\<close>

theorem cancel_job_accepted_iff_pending:
  "(fst (cancel_job s mid by_admin) \<longleftrightarrow>
      (\<exists>r. registry s mid = Some r \<and> \<not> started (jobs s r) \<and> \<not> canceled (jobs s r)))
   \<and> (registry s mid = Some r \<and> fst (cancel_job s mid by_admin) \<longrightarrow>
        canceled (jobs (snd (cancel_job s mid by_admin)) r)
        \<and> canceled_by_admin (jobs (snd (cancel_job s mid by_admin)) r) = by_admin
        \<and> pending_by_user (snd (cancel_job s mid by_admin))
            = pending_by_user (dec_pending s (user_id (jobs s r)))
        \<and> (0 < user_id (jobs s r) \<and> 1 \<le> pending_count_by_user s (user_id (jobs s r)) \<longrightarrow>
             pending_count_by_user (snd (cancel_job s mid by_admin)) (user_id (jobs s r))
               = pending_count_by_user s (user_id (jobs s r)) - 1))
   \<and> \<not> fst (cancel_job (snd (cancel_job s mid by_admin)) mid by_admin')
   \<and> (registry s mid = Some r \<and> fst (cancel_job s mid by_admin)
        \<and> registry (run (snd (cancel_job s mid by_admin)) ops) mid = Some r \<longrightarrow>
        \<not> fst (cancel_job (run (snd (cancel_job s mid by_admin)) ops) mid by_admin'))
   \<and> (registry s mid = Some r \<and> started (jobs s r) \<and> registry (run s ops) mid = Some r \<longrightarrow>
        \<not> fst (cancel_job (run s ops) mid by_admin))"
proof (intro conjI impI)
  show "fst (cancel_job s mid by_admin) \<longleftrightarrow>
      (\<exists>r. registry s mid = Some r \<and> \<not> started (jobs s r) \<and> \<not> canceled (jobs s r))"
    by (rule cancel_job_accepts_iff)
next
  assume a: "registry s mid = Some r \<and> fst (cancel_job s mid by_admin)"
  then have c: "cancel_job s mid by_admin = (True, snd (cancel_job s mid by_admin))"
    by (metis prod.collapse)
  from a have reg: "registry s mid = Some r" by simp
  show "canceled (jobs (snd (cancel_job s mid by_admin)) r)"
    by (rule cancel_job_effect(1)[OF c reg])
  show "canceled_by_admin (jobs (snd (cancel_job s mid by_admin)) r) = by_admin"
    by (rule cancel_job_effect(2)[OF c reg])
  show p: "pending_by_user (snd (cancel_job s mid by_admin))
            = pending_by_user (dec_pending s (user_id (jobs s r)))"
    by (rule cancel_job_effect(5)[OF c reg])
  assume "0 < user_id (jobs s r) \<and> 1 \<le> pending_count_by_user s (user_id (jobs s r))"
  then show "pending_count_by_user (snd (cancel_job s mid by_admin)) (user_id (jobs s r))
               = pending_count_by_user s (user_id (jobs s r)) - 1"
    using dec_pending_count[of "user_id (jobs s r)" s] p
    by (auto simp: pending_count_by_user_def)
next
  show "\<not> fst (cancel_job (snd (cancel_job s mid by_admin)) mid by_admin')"
    by (simp add: cancel_job_twice)
next
  assume a: "registry s mid = Some r \<and> fst (cancel_job s mid by_admin)
        \<and> registry (run (snd (cancel_job s mid by_admin)) ops) mid = Some r"
  then have c: "cancel_job s mid by_admin = (True, snd (cancel_job s mid by_admin))"
    by (metis prod.collapse)
  have "canceled (jobs (snd (cancel_job s mid by_admin)) r)"
    using cancel_job_effect(1)[OF c] a by simp
  then have "canceled (jobs (run (snd (cancel_job s mid by_admin)) ops) r)"
    using job_grows_run[of "snd (cancel_job s mid by_admin)" r ops] by (simp add: job_grows_def)
  then show "\<not> fst (cancel_job (run (snd (cancel_job s mid by_admin)) ops) mid by_admin')"
    using a cancel_job_rejects_canceled by simp
next
  assume a: "registry s mid = Some r \<and> started (jobs s r) \<and> registry (run s ops) mid = Some r"
  then have "started (jobs (run s ops) r)"
    using job_grows_run[of s r ops] by (simp add: job_grows_def)
  then show "\<not> fst (cancel_job (run s ops) mid by_admin)"
    using a cancel_job_rejects_started by simp
qed

theorem cancel_job_accepted_iff_pending_witness:
  "(let s = run example_queue [Enqueue ''b'' 1]; s' = snd (cancel_job s 101 True) in
      registry s 101 = Some 1 \<and> fst (cancel_job s 101 True)
      \<and> canceled (jobs s' 1) \<and> canceled_by_admin (jobs s' 1)
      \<and> pending_count_by_user s 5 = 1 \<and> pending_count_by_user s' 5 = 0
      \<and> \<not> fst (cancel_job s' 101 False)
      \<and> registry (run s' [Enqueue ''b'' 2]) 101 = Some 1
      \<and> \<not> fst (cancel_job (run s' [Enqueue ''b'' 2]) 101 False))
   \<and> (let s = run example_queue [Enqueue ''b'' 1, WorkerStep ''b'' 0] in
      registry s 101 = Some 1 \<and> started (jobs s 1)
      \<and> registry (run s [Enqueue ''b'' 2]) 101 = Some 1
      \<and> \<not> fst (cancel_job (run s [Enqueue ''b'' 2]) 101 False))"
  using cancel_job_accepted_iff_pending
      [where s = "run example_queue [Enqueue ''b'' 1]" and mid = 101 and by_admin = True
         and r = 1 and by_admin' = False and ops = "[Enqueue ''b'' 2]"]
    cancel_job_accepted_iff_pending
      [where s = "run example_queue [Enqueue ''b'' 1, WorkerStep ''b'' 0]" and mid = 101
         and by_admin = False and r = 1 and by_admin' = False and ops = "[Enqueue ''b'' 2]"]
  by (simp add: example_eval)

text \<open>
  C9. Every controller operation keeps every entry of the pending-counter map strictly
  positive: \<open>enqueue\<close>, \<open>enqueue_limited\<close>, \<open>enqueue_reserved\<close>, \<open>reserve_user_slot\<close>,
  \<open>release_user_slot\<close>, \<open>cancel_job\<close>, the start transition of a worker, and every step of
  the controller in general. So no counter is ever negative and no entry holds 0: a
  counter that reaches 0 is removed.
\<close>

theorem pending_counters_stay_positive:
  "pending_positive s \<Longrightarrow>
     (\<forall>tp r s'. enqueue s tp r = Inr s' \<longrightarrow> pending_positive s')
   \<and> (\<forall>tp r l b s'. enqueue_limited s tp r l = Inr (b, s') \<longrightarrow> pending_positive s')
   \<and> (\<forall>tp r b0 b s'. enqueue_reserved s tp r b0 = Inr (b, s') \<longrightarrow> pending_positive s')
   \<and> (\<forall>uid l. pending_positive (snd (reserve_user_slot s uid l)))
   \<and> (\<forall>uid. pending_positive (release_user_slot s uid))
   \<and> (\<forall>mid b. pending_positive (snd (cancel_job s mid b)))
   \<and> (\<forall>tp r. pending_positive (worker_start s tp r))
   \<and> pending_positive (exec s a)
   \<and> (\<forall>uid. pending_by_user (exec s a) uid \<noteq> Some 0)
   \<and> (\<forall>uid. 0 \<le> pending_count_by_user (exec s a) uid)"
proof -
  assume p: "pending_positive s"
  have e: "pending_positive (exec s a)"
    by (rule pending_positive_exec[OF p])
  have z: "\<forall>uid. pending_by_user (exec s a) uid \<noteq> Some 0"
    using e by (auto simp: pending_positive_def)
  have n: "\<forall>uid. 0 \<le> pending_count_by_user (exec s a) uid"
    using e by (auto simp: pending_positive_def pending_count_by_user_def split: option.splits
        intro: less_imp_le)
  show ?thesis
    using p e z n
    by (blast intro: pending_positive_enqueue pending_positive_enqueue_limited
        pending_positive_enqueue_reserved pending_positive_reserve pending_positive_release
        pending_positive_cancel pending_positive_worker_start)
qed

theorem pending_counters_stay_positive_witness:
  "(let s = run example_queue [Enqueue ''b'' 1]; s' = exec s (CancelJob 101 False) in
      pending_positive s \<and> pending_by_user s 5 = Some 1
      \<and> pending_positive s' \<and> pending_by_user s' 5 = None)"
proof -
  have h: "pending_positive (run example_queue [Enqueue ''b'' 1])"
    by (simp add: example_eval pending_positive_def)
  have "pending_positive (exec (run example_queue [Enqueue ''b'' 1]) (CancelJob 101 False))"
    using pending_counters_stay_positive[OF h, of "CancelJob 101 False"] by (elim conjE)
  then show ?thesis
    using h by (simp add: example_eval)
qed

lemma pending_positive_init: "init objs mw ptl = Inr s0 \<Longrightarrow> pending_positive s0"
  by (auto simp: init_def pending_positive_def split: if_splits)

text \<open>
  C10. A controller constructed with any per-topic limit runs every topic with a pool of
  \<open>max 1 per_topic_limit\<close> workers: in every state reached from the constructor, the pool
  that \<open>_ensure_workers\<close> leaves for a topic has exactly that many workers, and so has
  every pool that exists. With a limit of 0 or less the pool has exactly one worker.
\<close>

theorem worker_pool_size:
  "init objs mw ptl = Inr s0 \<Longrightarrow>
     (\<exists>ws. workers (ensure_workers (run s0 ops) tp) tp = Some ws
           \<and> int (length ws) = max 1 ptl \<and> ws \<noteq> [] \<and> (ptl \<le> 0 \<longrightarrow> length ws = 1))
   \<and> (\<forall>tp' ws. workers (run s0 ops) tp' = Some ws \<longrightarrow> int (length ws) = max 1 ptl)"
proof -
  assume i: "init objs mw ptl = Inr s0"
  have p: "pools_sized (run s0 ops) ptl"
    by (rule pools_sized_run[OF pools_sized_init[OF i]])
  obtain ws where w: "workers (ensure_workers (run s0 ops) tp) tp = Some ws"
    and l: "int (length ws) = max 1 ptl"
    using ensure_workers_pool[OF p] by blast
  from l have "ws \<noteq> []" by auto
  moreover from l have "ptl \<le> 0 \<longrightarrow> length ws = 1" by auto
  ultimately show ?thesis
    using w l p by (auto simp: pools_sized_def)
qed

theorem worker_pool_size_witness:
  "init example_jobs 2 0 = Inr (projr (init example_jobs 2 0))
   \<and> workers (ensure_workers (run (projr (init example_jobs 2 0)) [SetProcessor, Enqueue ''a'' 0]) ''b'') ''b''
       = Some [WIdle]
   \<and> workers (run (projr (init example_jobs 2 0)) [SetProcessor, Enqueue ''a'' 0]) ''a'' = Some [WIdle]"
proof -
  have h: "init example_jobs 2 0 = Inr (projr (init example_jobs 2 0))"
    by (simp add: init_def)
  show ?thesis
    using h worker_pool_size[OF h, of "[SetProcessor, Enqueue ''a'' 0]" "''b''"]
    by (simp add: example_eval)
qed

text \<open>
  C4. With a non-null seed in \<open>params\<close> the rendered graph does not depend on the random
  source, and the source is left untouched: two calls with the same arguments return the
  same graph whatever the generator does. Without a seed exactly one number is drawn, in
  the range 0 to \<open>2^48 - 1\<close>, and the result is the one obtained by passing that number as
  the seed: the draw is made once for the call and shared by all nodes. In no case is
  more than one number drawn.
\<close>

theorem prepare_workflow_seed_once:
  "(get_not_none params ''seed'' \<noteq> None \<longrightarrow>
      fst (prepare_workflow g1 base_workflow nodes prompt params)
        = fst (prepare_workflow g2 base_workflow nodes prompt params)
      \<and> snd (prepare_workflow g1 base_workflow nodes prompt params) = g1)
   \<and> (get_not_none params ''seed'' = None \<longrightarrow>
      draws (snd (prepare_workflow g1 base_workflow nodes prompt params)) = draws g1 + 1
      \<and> (\<exists>seed. 0 \<le> seed \<and> seed \<le> 2 ^ 48 - 1
            \<and> seed = fst (randint 0 (2 ^ 48 - 1) g1)
            \<and> fst (prepare_workflow g1 base_workflow nodes prompt params)
                = fst (prepare_workflow g2 base_workflow nodes prompt
                         (AList.update ''seed'' (JInt seed) params))))
   \<and> draws (snd (prepare_workflow g1 base_workflow nodes prompt params)) \<le> draws g1 + 1"
proof (intro conjI impI)
  assume s: "get_not_none params ''seed'' \<noteq> None"
  show "fst (prepare_workflow g1 base_workflow nodes prompt params)
        = fst (prepare_workflow g2 base_workflow nodes prompt params)"
    by (simp add: prepare_workflow_def effective_params_seeded[OF s])
  show "snd (prepare_workflow g1 base_workflow nodes prompt params) = g1"
    by (simp add: prepare_workflow_def effective_params_seeded[OF s])
next
  assume n: "get_not_none params ''seed'' = None"
  show "draws (snd (prepare_workflow g1 base_workflow nodes prompt params)) = draws g1 + 1"
    by (simp add: prepare_workflow_def effective_params_unseeded[OF n] draws_def)
  let ?seed = "fst (randint 0 (2 ^ 48 - 1) g1)"
  have r: "0 \<le> ?seed \<and> ?seed \<le> 2 ^ 48 - 1"
    by (rule randint_range) simp
  have "get_not_none (AList.update ''seed'' (JInt ?seed) params) ''seed'' \<noteq> None"
    by simp
  then have "fst (prepare_workflow g1 base_workflow nodes prompt params)
                = fst (prepare_workflow g2 base_workflow nodes prompt
                         (AList.update ''seed'' (JInt ?seed) params))"
    by (simp add: prepare_workflow_def effective_params_unseeded[OF n] effective_params_seeded)
  with r show "\<exists>seed. 0 \<le> seed \<and> seed \<le> 2 ^ 48 - 1
            \<and> seed = fst (randint 0 (2 ^ 48 - 1) g1)
            \<and> fst (prepare_workflow g1 base_workflow nodes prompt params)
                = fst (prepare_workflow g2 base_workflow nodes prompt
                         (AList.update ''seed'' (JInt seed) params))"
    by blast
next
  show "draws (snd (prepare_workflow g1 base_workflow nodes prompt params)) \<le> draws g1 + 1"
    by (cases "get_not_none params ''seed''")
       (simp_all add: prepare_workflow_def effective_params_unseeded effective_params_seeded draws_def)
qed

theorem prepare_workflow_seed_once_witness:
  "get_not_none [(''seed'', JInt 7)] ''seed'' \<noteq> None
   \<and> fst (prepare_workflow example_rng example_graph example_rules ''a cat'' [(''seed'', JInt 7)])
       = fst (prepare_workflow (\<lambda>n. 0, 5) example_graph example_rules ''a cat'' [(''seed'', JInt 7)])
   \<and> get_not_none [(''steps'', JInt 20)] ''seed'' = None
   \<and> draws (snd (prepare_workflow example_rng example_graph example_rules ''a cat'' [(''steps'', JInt 20)])) = 1"
  using prepare_workflow_seed_once[of "[(''seed'', JInt 7)]" example_rng example_graph example_rules
          "''a cat''" "(\<lambda>n. 0, 5)"]
    prepare_workflow_seed_once[of "[(''steps'', JInt 20)]" example_rng example_graph example_rules
          "''a cat''" "(\<lambda>n. 0, 5)"]
  by (simp add: get_not_none_def draws_def example_rng_def)

text \<open>
  C6 as stated: the implemented rendering equals the six-pass reference for every rule
  list. It does not: the code handles prompt, negative-prompt and generic text rules in
  one loop, in the order of the list, so a text rule placed before a prompt rule that
  writes the same input is overwritten by the prompt, where the reference lets the text
  pass win.
\<close>

theorem render_six_passes_counterexample:
  "fst (prepare_workflow example_rng text_graph text_first_rules ''a cat''
          [(''caption'', JStr ''a dog''), (''seed'', JInt 1)])
     = Inr [(''5'', JObj [(''class_type'', JStr ''CLIPTextEncode''),
                          (''inputs'', JObj [(''text'', JStr ''a cat'')])])]
   \<and> fst (spec_render example_rng text_graph text_first_rules ''a cat''
          [(''caption'', JStr ''a dog''), (''seed'', JInt 1)])
     = Inr [(''5'', JObj [(''class_type'', JStr ''CLIPTextEncode''),
                          (''inputs'', JObj [(''text'', JStr ''a dog'')])])]
   \<and> fst (prepare_workflow example_rng text_graph text_first_rules ''a cat''
          [(''caption'', JStr ''a dog''), (''seed'', JInt 1)])
     \<noteq> fst (spec_render example_rng text_graph text_first_rules ''a cat''
          [(''caption'', JStr ''a dog''), (''seed'', JInt 1)])"
  by (simp add: render_eval string_eval text_graph_def text_first_rules_def spec_render_def
      spec_render_passes_def spec_prompt_rule_def spec_negative_prompt_rule_def
      spec_text_rule_def)

text \<open>
  C6, amended. The code runs four loops in fixed order: one loop for the prompt,
  negative-prompt and generic text rules together, taken in list order; the single input
  image; the input images with pruning; the scalar catch-all. It equals the six-pass
  reference for every rule list in pass order, that is, where no negative-prompt or
  generic text rule comes before a prompt rule and no generic text rule before a
  negative-prompt rule, whatever the positions of the rules of the other kinds.
\<close>

theorem render_six_passes_in_pass_order:
  "in_pass_order 0 nodes \<Longrightarrow>
   prepare_workflow g base_workflow nodes prompt params
     = spec_render g base_workflow nodes prompt params"
  by (simp add: prepare_workflow_def spec_render_def apply_rules_in_pass_order split_beta)

theorem render_six_passes_in_pass_order_witness:
  "in_pass_order 0 example_rules
   \<and> prepare_workflow example_rng example_graph example_rules ''a cat''
        [(''input_images'', JList [JStr ''a.png'', JStr ''b.png'']), (''seed'', JInt 1)]
     = spec_render example_rng example_graph example_rules ''a cat''
        [(''input_images'', JList [JStr ''a.png'', JStr ''b.png'']), (''seed'', JInt 1)]"
proof -
  have h: "in_pass_order 0 example_rules"
    by (simp add: example_rules_def images_rule_def text_pass_def string_eval)
  show ?thesis
    using h render_six_passes_in_pass_order[OF h] by simp
qed

text \<open>
  C3. Let an \<open>input_images\<close> rule of the rule list declare \<open>k\<close> distinct node ids, all
  present in the template with an \<open>inputs\<close> object and none of them targeted by another
  rule, and let \<open>m\<close> file names be supplied (\<open>m = 0\<close> when the list is absent, empty or not
  a list). Whenever rendering returns a graph, that graph holds the first \<open>min m k\<close>
  target nodes, node \<open>i\<close> with file name \<open>i\<close> under the rule's key; it holds none of the
  other \<open>k - m\<close> ids; and no node keeps an input that is an edge to one of those ids,
  provided no parameter value is itself such an edge (the scalar loop runs after the
  pruning and writes parameter values as they are).
\<close>

theorem input_images_pruning:
  assumes "rule \<in> set nodes"
    and "rtype_of rule = ''input_images''"
    and "supplied_images params = map JStr fnames"
    and "distinct (node_ids rule)"
    and "\<forall>nid \<in> set (node_ids rule). inputs_of base_workflow nid \<noteq> None"
    and "\<forall>other \<in> set nodes. other \<noteq> rule \<longrightarrow> set (node_ids other) \<inter> set (node_ids rule) = {}"
    and "\<forall>k v. map_of params k = Some v \<longrightarrow> \<not> is_edge_to (drop (length fnames) (node_ids rule)) v"
    and "fst (prepare_workflow g base_workflow nodes prompt params) = Inr out"
  shows "(\<forall>i < min (length fnames) (length (node_ids rule)).
            has_input out (node_ids rule ! i) (key rule) (JStr (fnames ! i)))
       \<and> (\<forall>nid \<in> set (drop (length fnames) (node_ids rule)). map_of out nid = None)
       \<and> dangling_edges (drop (length fnames) (node_ids rule)) out = []"
proof -
  let ?eff = "fst (effective_params g params)"
  have res: "apply_rules base_workflow nodes prompt ?eff = Inr out"
    using assms(8) by (simp add: prepare_workflow_def split_beta)
  have sup: "supplied_images ?eff = map JStr fnames"
    using assms(3) by (simp add: supplied_images_effective)
  have ne: "\<forall>k v. get_not_none ?eff k = Some v \<longrightarrow>
              \<not> is_edge_to (drop (length fnames) (node_ids rule)) v"
  proof (intro allI impI)
    fix k v
    assume "get_not_none ?eff k = Some v"
    from effective_params_values[OF this] show "\<not> is_edge_to (drop (length fnames) (node_ids rule)) v"
      using assms(7) by auto
  qed
  show ?thesis
    by (rule apply_rules_pruning[OF assms(1) assms(2) sup assms(4) assms(5) assms(6) ne res])
qed

lemmas graph_eval = example_graph_def example_rules_def images_rule_def load_image_def

theorem input_images_pruning_witness:
  "images_rule \<in> set example_rules
   \<and> rtype_of images_rule = ''input_images''
   \<and> supplied_images [(''input_images'', JList [JStr ''a.png'', JStr ''b.png'']), (''seed'', JInt 1)]
       = map JStr [''a.png'', ''b.png'']
   \<and> distinct (node_ids images_rule)
   \<and> list_all (\<lambda>nid. inputs_of example_graph nid \<noteq> None) (node_ids images_rule)
   \<and> list_all (\<lambda>other. other = images_rule \<or> set (node_ids other) \<inter> set (node_ids images_rule) = {})
        example_rules
   \<and> list_all (\<lambda>(k, v). \<not> is_edge_to [''12''] v)
        [(''input_images'', JList [JStr ''a.png'', JStr ''b.png'']), (''seed'', JInt 1)]
   \<and> (\<exists>out. fst (prepare_workflow example_rng example_graph example_rules ''a cat''
                 [(''input_images'', JList [JStr ''a.png'', JStr ''b.png'']), (''seed'', JInt 1)]) = Inr out
         \<and> has_input out ''10'' ''image'' (JStr ''a.png'')
         \<and> has_input out ''11'' ''image'' (JStr ''b.png'')
         \<and> map_of out ''12'' = None
         \<and> dangling_edges [''12''] out = [])"
proof -
  let ?params = "[(''input_images'', JList [JStr ''a.png'', JStr ''b.png'']), (''seed'', JInt 1)]"
  let ?out = "projr (fst (prepare_workflow example_rng example_graph example_rules ''a cat'' ?params))"
  have h1: "images_rule \<in> set example_rules" by (simp add: example_rules_def)
  have h2: "rtype_of images_rule = ''input_images''" by (simp add: images_rule_def string_eval)
  have h3: "supplied_images ?params = map JStr [''a.png'', ''b.png'']"
    by (simp add: supplied_images_def)
  have h4: "distinct (node_ids images_rule)" by (simp add: images_rule_def)
  have h5: "\<forall>nid \<in> set (node_ids images_rule). inputs_of example_graph nid \<noteq> None"
    by (simp add: graph_eval inputs_of_def)
  have h6: "\<forall>other \<in> set example_rules. other \<noteq> images_rule \<longrightarrow>
         set (node_ids other) \<inter> set (node_ids images_rule) = {}"
    by (simp add: example_rules_def images_rule_def)
  have h7: "\<forall>k v. map_of ?params k = Some v \<longrightarrow>
              \<not> is_edge_to (drop (length [''a.png'', ''b.png'']) (node_ids images_rule)) v"
    by (auto simp: is_edge_to_def images_rule_def split: if_splits)
  have h8: "fst (prepare_workflow example_rng example_graph example_rules ''a cat'' ?params) = Inr ?out"
    by (simp add: render_eval string_eval graph_eval)
  have c: "(\<forall>i < min (length [''a.png'', ''b.png'']) (length (node_ids images_rule)).
            has_input ?out (node_ids images_rule ! i) (key images_rule) (JStr ([''a.png'', ''b.png''] ! i)))
       \<and> (\<forall>nid \<in> set (drop (length [''a.png'', ''b.png'']) (node_ids images_rule)). map_of ?out nid = None)
       \<and> dangling_edges (drop (length [''a.png'', ''b.png'']) (node_ids images_rule)) ?out = []"
    by (rule input_images_pruning[OF h1 h2 h3 h4 h5 h6 h7 h8])
  from c have c0: "has_input ?out ''10'' ''image'' (JStr ''a.png'')"
    by (auto simp: images_rule_def dest: spec[of _ 0])
  from c have c1: "has_input ?out ''11'' ''image'' (JStr ''b.png'')"
    by (auto simp: images_rule_def dest: spec[of _ 1])
  from c have c2: "map_of ?out ''12'' = None" and c3: "dangling_edges [''12''] ?out = []"
    by (simp_all add: images_rule_def)
  have h5': "list_all (\<lambda>nid. inputs_of example_graph nid \<noteq> None) (node_ids images_rule)"
    using h5 by (simp add: list_all_iff)
  have h6': "list_all (\<lambda>other. other = images_rule \<or> set (node_ids other) \<inter> set (node_ids images_rule) = {})
        example_rules"
    using h6 by (auto simp: list_all_iff)
  have h7': "list_all (\<lambda>(k, v). \<not> is_edge_to [''12''] v) ?params"
    by (simp add: is_edge_to_def)
  from h1 h2 h3 h4 h5' h6' h7' h8 c0 c1 c2 c3 show ?thesis by blast
qed

lemmas client_eval = submit_and_wait_def example_env_def py_subscript_def py_get_def
  py_get_data_def on_message_def truthy_def compute_timings_def done_or_now_def
  executing_event_def execution_error_event_def timeout_error_def event_of_def
  tracked_id_def terminal_def Let_def

text \<open>
  C5. For every run that returns a result, the completion of the tracked execution was
  seen, at \<open>t_execDone\<close>, and both durations are non-negative. With a clock that does not
  read exactly 0 at the completion (it counts seconds since 1970): if a node of the
  tracked execution was seen executing before the completion, first at \<open>t_execStart\<close>, the
  queue duration is \<open>max 0 (t_execStart - t_submitted)\<close> and the execution duration is
  \<open>max 0 (t_execDone - t_execStart)\<close>; otherwise the queue duration is
  \<open>max 0 (t_execDone - t_submitted)\<close> and the execution duration is 0.
\<close>

theorem timings_of_completed_run:
  assumes "submit_and_wait run_timeout env = Some (Inr res)"
  shows "\<exists>pid td. tracked_id env = Some pid \<and> exec_done_seen pid (ticks env) = Some td
     \<and> (td \<noteq> 0 \<longrightarrow>
          (case exec_start_seen pid (ticks env) of
             Some ts \<Rightarrow> comfy_queue_s res = max 0 (ts - queued_ts env)
                       \<and> comfy_exec_s res = max 0 (td - ts)
           | None \<Rightarrow> comfy_queue_s res = max 0 (td - queued_ts env)
                    \<and> comfy_exec_s res = 0))
     \<and> 0 \<le> comfy_queue_s res \<and> 0 \<le> comfy_exec_s res"
proof -
  from assms obtain pid tes td ms where t: "tracked_id env = Some pid"
    and a: "await_events (start_ts env) run_timeout pid None (ticks env) = Some (Done tes td)"
    and q: "comfy_queue_s res = fst (compute_timings (start_ts env) (Some (queued_ts env)) tes (Some td) (final_ts env))"
    and x: "comfy_exec_s res = snd (compute_timings (start_ts env) (Some (queued_ts env)) tes (Some td) (final_ts env))"
    by (rule submit_and_wait_done)
  from await_events_done[OF a] have d: "exec_done_seen pid (ticks env) = Some td"
    and s: "tes = exec_start_seen pid (ticks env)"
    by simp_all
  have f: "td \<noteq> 0 \<longrightarrow>
          (case exec_start_seen pid (ticks env) of
             Some ts \<Rightarrow> comfy_queue_s res = max 0 (ts - queued_ts env)
                       \<and> comfy_exec_s res = max 0 (td - ts)
           | None \<Rightarrow> comfy_queue_s res = max 0 (td - queued_ts env)
                    \<and> comfy_exec_s res = 0)"
    using q x s by (simp add: compute_timings_def done_or_now_def split: option.splits)
  have n: "0 \<le> comfy_queue_s res \<and> 0 \<le> comfy_exec_s res"
    using q x compute_timings_nonneg by simp
  from t d f n show ?thesis by blast
qed

theorem timings_of_completed_run_witness:
  "submit_and_wait 300 (example_env run_ticks)
     = Some (Inr \<lparr> media = [], comfy_queue_s = 2, comfy_exec_s = 8 \<rparr>)
   \<and> tracked_id (example_env run_ticks) = Some (JStr ''p1'')
   \<and> exec_start_seen (JStr ''p1'') run_ticks = Some 112
   \<and> exec_done_seen (JStr ''p1'') run_ticks = Some 120
   \<and> 2 = max 0 (112 - queued_ts (example_env run_ticks))
   \<and> (8::real) = max 0 (120 - 112)"
proof -
  have h: "submit_and_wait 300 (example_env run_ticks)
     = Some (Inr \<lparr> media = [], comfy_queue_s = 2, comfy_exec_s = 8 \<rparr>)"
    by (simp add: client_eval run_ticks_def)
  have e: "exec_start_seen (JStr ''p1'') run_ticks = Some 112"
    "exec_done_seen (JStr ''p1'') run_ticks = Some 120"
    "tracked_id (example_env run_ticks) = Some (JStr ''p1'')"
    by (simp_all add: client_eval run_ticks_def)
  from timings_of_completed_run[OF h] e show ?thesis
    using h by (simp add: example_env_def)
qed

text \<open>
  C7 as stated: an execution error read before any completion makes the call fail with
  exactly the message the remote reported. With an empty message it does not: the code
  puts a fixed text in its place.
\<close>

theorem execution_error_verbatim_counterexample:
  "submit_and_wait 300 (example_env (error_ticks (JStr [])))
     = Some (Inl (ComfyError (JStr ''ComfyUI execution error'')))
   \<and> submit_and_wait 300 (example_env (error_ticks (JStr []))) \<noteq> Some (Inl (ComfyError (JStr [])))"
  by (simp add: client_eval error_ticks_def)

text \<open>
  C7, amended. When the loop reads an \<open>execution_error\<close> event before any completion (no
  earlier iteration ended the loop, and the deadline had not passed at the head of any
  iteration up to this one), the call fails with \<open>ComfyError\<close> and returns no result. The
  error carries the reported \<open>exception_message\<close> as it is when that is a non-empty
  string (or any other value that Python takes as true), and the text
  \<open>ComfyUI execution error\<close> when the reported message is empty or null.
\<close>

theorem execution_error_surfaces:
  assumes "connect_error env = None" and "tracked_id env = Some pid"
    and "ticks env = pre @ tk # rest"
    and "\<forall>t \<in> set pre. now t - start_ts env \<le> run_timeout \<and> \<not> terminal pid t"
    and "now tk - start_ts env \<le> run_timeout"
    and "frame tk = Text (Some (JObj kv))"
    and "map_of kv ''type'' = Some (JStr ''execution_error'')"
    and "map_of kv ''data'' = Some (JObj d)"
    and "map_of d ''exception_message'' = Some msg"
  shows "submit_and_wait run_timeout env
     = Some (Inl (ComfyError (if truthy msg then msg else JStr ''ComfyUI execution error'')))"
proof -
  let ?err = "if truthy msg then msg else JStr ''ComfyUI execution error''"
  have ev: "event_of pid tk = Failed ?err"
    using assms(6) on_message_execution_error[OF assms(7,8,9)] by (simp add: event_of_def)
  have "await_events (start_ts env) run_timeout pid None (ticks env) = Some (RemoteError ?err)"
    unfolding assms(3) by (rule await_events_error[OF assms(4) assms(5) ev])
  then show ?thesis
    using assms(1,2)
    by (auto simp: submit_and_wait_def tracked_id_def split: sum.splits option.splits)
qed

theorem execution_error_surfaces_witness:
  "submit_and_wait 300 (example_env (error_ticks (JStr ''OOM''))) = Some (Inl (ComfyError (JStr ''OOM'')))
   \<and> truthy (JStr ''OOM'')"
proof -
  let ?env = "example_env (error_ticks (JStr ''OOM''))"
  let ?t1 = "\<lparr>now = 111, frame = Text (Some (executing_event (JStr ''p1'') (JStr ''3''))), stamp = 112\<rparr>"
  let ?t2 = "\<lparr>now = 113, frame = Text (Some (execution_error_event (JStr ''p1'') (JStr ''OOM''))), stamp = 114\<rparr>"
  have h1: "connect_error ?env = None" by (simp add: example_env_def)
  have h2: "tracked_id ?env = Some (JStr ''p1'')" by (simp add: client_eval)
  have h3: "ticks ?env = [?t1] @ ?t2 # []" by (simp add: example_env_def error_ticks_def)
  have h4: "\<forall>t \<in> set [?t1]. now t - start_ts ?env \<le> 300 \<and> \<not> terminal (JStr ''p1'') t"
    by (simp add: client_eval)
  have h5: "now ?t2 - start_ts ?env \<le> 300" by (simp add: example_env_def)
  have h6: "frame ?t2 = Text (Some (JObj [(''type'', JStr ''execution_error''),
           (''data'', JObj [(''prompt_id'', JStr ''p1''), (''exception_message'', JStr ''OOM'')])]))"
    by (simp add: execution_error_event_def)
  have t: "truthy (JStr ''OOM'')" by (simp add: truthy_def)
  from execution_error_surfaces[OF h1 h2 h3 h4 h5 h6, of "[(''prompt_id'', JStr ''p1''), (''exception_message'', JStr ''OOM'')]" "JStr ''OOM''"]
  show ?thesis using t by simp
qed

text \<open>
  C8 as stated: the call fails with the timeout exactly when no terminal event of the
  tracked execution arrives within the run timeout counted from the submission. In the
  run below the completion arrives 295 seconds after the submission, under a run timeout
  of 300, and the call fails with the timeout all the same: the deadline is counted from
  the start of the call, 10 seconds earlier.
\<close>

theorem timeout_since_submission_counterexample:
  "submit_and_wait 300 (example_env late_ticks) = Some (Inl timeout_error)
   \<and> \<not> spec_timeout 300 (JStr ''p1'') (example_env late_ticks)"
  by (simp add: client_eval late_ticks_def spec_timeout_def spec_terminal_event_def)

text \<open>
  C8, amended. The loop raises the timeout exactly when, at the head of an iteration
  reached without any iteration having ended the loop before, the clock reads more than
  the run timeout after the clock read at the start of the call, before the channel is
  connected and the graph submitted. The call then fails with
  \<open>ComfyError "Generation timeout exceeded"\<close>; it fails with that error in no other case
  than the remote reporting an execution error with that very text.
\<close>

theorem timeout_measured_from_start:
  assumes "connect_error env = None" and "tracked_id env = Some pid"
  shows "(await_events (start_ts env) run_timeout pid None (ticks env) = Some TimedOut \<longleftrightarrow>
           (\<exists>pre tk rest. ticks env = pre @ tk # rest \<and> now tk - start_ts env > run_timeout
              \<and> (\<forall>t \<in> set pre. now t - start_ts env \<le> run_timeout \<and> \<not> terminal pid t)))
       \<and> (submit_and_wait run_timeout env = Some (Inl timeout_error) \<longleftrightarrow>
           await_events (start_ts env) run_timeout pid None (ticks env) = Some TimedOut
           \<or> await_events (start_ts env) run_timeout pid None (ticks env)
                = Some (RemoteError (JStr ''Generation timeout exceeded'')))"
proof
  show "await_events (start_ts env) run_timeout pid None (ticks env) = Some TimedOut \<longleftrightarrow>
           (\<exists>pre tk rest. ticks env = pre @ tk # rest \<and> now tk - start_ts env > run_timeout
              \<and> (\<forall>t \<in> set pre. now t - start_ts env \<le> run_timeout \<and> \<not> terminal pid t))"
    by (rule await_events_timeout_iff)
next
  show "submit_and_wait run_timeout env = Some (Inl timeout_error) \<longleftrightarrow>
           await_events (start_ts env) run_timeout pid None (ticks env) = Some TimedOut
           \<or> await_events (start_ts env) run_timeout pid None (ticks env)
                = Some (RemoteError (JStr ''Generation timeout exceeded''))"
    using assms
    by (auto simp: submit_and_wait_def tracked_id_def timeout_error_def split_beta
        split: sum.splits option.splits wait_result.splits)
qed

theorem timeout_measured_from_start_witness:
  "connect_error (example_env late_ticks) = None
   \<and> tracked_id (example_env late_ticks) = Some (JStr ''p1'')
   \<and> await_events (start_ts (example_env late_ticks)) 300 (JStr ''p1'') None late_ticks = Some TimedOut
   \<and> now (hd late_ticks) - start_ts (example_env late_ticks) > 300
   \<and> submit_and_wait 300 (example_env late_ticks) = Some (Inl timeout_error)"
proof -
  have h1: "connect_error (example_env late_ticks) = None" by (simp add: example_env_def)
  have h2: "tracked_id (example_env late_ticks) = Some (JStr ''p1'')" by (simp add: client_eval)
  have a: "await_events (start_ts (example_env late_ticks)) 300 (JStr ''p1'') None
             (ticks (example_env late_ticks)) = Some TimedOut"
    by (simp add: example_env_def late_ticks_def)
  from timeout_measured_from_start[OF h1 h2, of 300] a
  have "submit_and_wait 300 (example_env late_ticks) = Some (Inl timeout_error)"
    by blast
  then show ?thesis
    using h1 h2 a by (simp add: example_env_def late_ticks_def)
qed

end
